theory Spec2Isabelle
  imports Complex_Main "HOL-Library.Multiset"
begin

section \<open>Poisson fit of a power law: the notebook class PowerlawPoissonFit\<close>

text \<open>
  The development embeds the class \<^verbatim>\<open>PowerlawPoissonFit\<close> of
  \<^verbatim>\<open>notebooks/Example1_fit_HETG_powerlaw.ipynb\<close> and the bin midpoint
  expression that the same notebook shares with \<^verbatim>\<open>test_create_from_arrays\<close>.

  Numbers. A numpy float64 is modelled by the type \<open>float64\<close> below: a finite value carries
  the real number it denotes, and the three special values \<open>+inf\<close>, \<open>-inf\<close> and \<open>nan\<close>
  are constructors of their own. Every operation on finite values takes the exact real
  result and rounds it to IEEE 754 binary64 with \<open>round64\<close>: 53 bits of precision, round
  to nearest with ties to even, gradual underflow with the spacing \<open>2 powr - 1074\<close> below
  \<open>2 powr - 1022\<close>, and overflow to an infinity once the rounded magnitude reaches
  \<open>2 powr 1024\<close>. A real number is a float64 value when rounding leaves it unchanged
  (\<open>double\<close>); statements about finite inputs ask for that. The special values follow
  IEEE 754 as numpy implements it. Two things are left out. The sign of zero is not kept:
  the class tests zero only through \<^verbatim>\<open>!= 0.0\<close>, which does not see it. And
  \<^verbatim>\<open>np.log\<close> and \<^verbatim>\<open>np.power\<close> are taken as correctly rounded, where
  the C library behind them may be off by one unit in the last place.

  Library code. The class calls \<^verbatim>\<open>self.bin_counts\<close>, \<^verbatim>\<open>self.apply_resp\<close> and
  \<^verbatim>\<open>self.model.calculate\<close>, which belong to the packages pyxsis and clarsach and are
  not part of the repository. They are parameters of the model (the record \<open>library\<close>):
  \<^verbatim>\<open>bin_counts\<close> and \<^verbatim>\<open>apply_resp\<close> are functions of the whole object, its
  model included, \<^verbatim>\<open>calculate\<close> is a function of the power law object, and all three
  return arrays and leave the object as it is. In the notebook the import of clarsach is
  commented out and the class derives from \<^verbatim>\<open>object\<close>; the model takes the methods as
  they are written and supplies the library behind the names they call.
\<close>

subsection \<open>float64 values and rounding\<close>

datatype float64 = Fin real | PInf | NInf | NaN

datatype py_error = ValueError | IndexError

text \<open>Unary minus.\<close>

fun fneg :: "float64 \<Rightarrow> float64" where
  "fneg (Fin r) = Fin (- r)"
| "fneg PInf = NInf"
| "fneg NInf = PInf"
| "fneg NaN = NaN"

text \<open>Rounding of a quotient to the nearest integer, a tie going to the even neighbour.\<close>

definition rhe :: "real \<Rightarrow> int" where
  "rhe q =
     (let f = \<lfloor>q\<rfloor>; d = q - of_int f
      in if d < 1 / 2 then f else if 1 / 2 < d then f + 1 else if even f then f else f + 1)"

text \<open>
  The binade of a positive real: the exponent of the largest power of two below it, and
  \<open>- 1022\<close> for everything below \<open>2 powr - 1022\<close>, where the subnormal numbers share the
  spacing of the smallest normal binade. \<open>ulp x\<close> is the spacing of the float64 values in
  the binade of \<open>x\<close>, and \<open>big\<close> is the first power of two that is not a float64 value.
\<close>

definition expo :: "real \<Rightarrow> int" where
  "expo x = max \<lfloor>log 2 x\<rfloor> (- 1022)"

definition ulp :: "real \<Rightarrow> real" where
  "ulp x = 2 powr of_int (expo x - 52)"

definition big :: real where
  "big = 2 powr 1024"

text \<open>
  \<open>rval x\<close> is the multiple of \<open>ulp x\<close> nearest to a positive \<open>x\<close>. \<open>round_pos\<close> rounds a
  non-negative real and overflows to \<open>+inf\<close>; \<open>round64\<close> rounds any real, by symmetry.
\<close>

definition rval :: "real \<Rightarrow> real" where
  "rval x = ulp x * of_int (rhe (x / ulp x))"

definition round_pos :: "real \<Rightarrow> float64" where
  "round_pos x = (if x = 0 then Fin 0 else if big \<le> rval x then PInf else Fin (rval x))"

definition round64 :: "real \<Rightarrow> float64" where
  "round64 x = (if x < 0 then fneg (round_pos (- x)) else round_pos x)"

text \<open>The reals that are float64 values.\<close>

definition double :: "real \<Rightarrow> bool" where
  "double x = (round64 x = Fin x)"

subsection \<open>The numpy operations the class uses\<close>

text \<open>\<^verbatim>\<open>np.isfinite(x)\<close>\<close>

fun isfinite :: "float64 \<Rightarrow> bool" where
  "isfinite (Fin r) = True"
| "isfinite PInf = False"
| "isfinite NInf = False"
| "isfinite NaN = False"

text \<open>\<^verbatim>\<open>x != 0.0\<close>: true for the infinities, and true for nan, which differs from everything.\<close>

fun ne_zero :: "float64 \<Rightarrow> bool" where
  "ne_zero (Fin r) = (r \<noteq> 0)"
| "ne_zero PInf = True"
| "ne_zero NInf = True"
| "ne_zero NaN = True"

text \<open>Addition: nan absorbs, and the sum of the two opposite infinities is nan.\<close>

fun fadd :: "float64 \<Rightarrow> float64 \<Rightarrow> float64" where
  "fadd NaN y = NaN"
| "fadd x NaN = NaN"
| "fadd (Fin a) (Fin b) = round64 (a + b)"
| "fadd (Fin a) PInf = PInf"
| "fadd (Fin a) NInf = NInf"
| "fadd PInf (Fin b) = PInf"
| "fadd NInf (Fin b) = NInf"
| "fadd PInf PInf = PInf"
| "fadd NInf NInf = NInf"
| "fadd PInf NInf = NaN"
| "fadd NInf PInf = NaN"

text \<open>Subtraction is addition of the negated operand.\<close>

definition fsub :: "float64 \<Rightarrow> float64 \<Rightarrow> float64" where
  "fsub x y = fadd x (fneg y)"

text \<open>The sign of a finite non-zero value times an infinity; zero times an infinity is nan.\<close>

definition inf_times :: "bool \<Rightarrow> real \<Rightarrow> float64" where
  "inf_times positive r =
     (if r = 0 then NaN else if (0 < r) = positive then PInf else NInf)"

fun fmul :: "float64 \<Rightarrow> float64 \<Rightarrow> float64" where
  "fmul NaN y = NaN"
| "fmul x NaN = NaN"
| "fmul (Fin a) (Fin b) = round64 (a * b)"
| "fmul (Fin a) PInf = inf_times True a"
| "fmul (Fin a) NInf = inf_times False a"
| "fmul PInf (Fin b) = inf_times True b"
| "fmul NInf (Fin b) = inf_times False b"
| "fmul PInf PInf = PInf"
| "fmul NInf NInf = PInf"
| "fmul PInf NInf = NInf"
| "fmul NInf PInf = NInf"

text \<open>
  Division. A finite value over an infinity is zero, an infinity over an infinity is nan.
  The divisor zero is written out for a positive zero (\<open>x / 0.0\<close> is an infinity of the sign
  of \<open>x\<close>, and \<open>0.0 / 0.0\<close> is nan); the class never divides by zero, since
  \<^verbatim>\<open>mod_residuals\<close> masks the zero errors and \<^verbatim>\<open>cash\<close> divides by 2.0.
\<close>

fun fdiv :: "float64 \<Rightarrow> float64 \<Rightarrow> float64" where
  "fdiv NaN y = NaN"
| "fdiv x NaN = NaN"
| "fdiv (Fin a) (Fin b) = (if b = 0 then inf_times True a else round64 (a / b))"
| "fdiv (Fin a) PInf = Fin 0"
| "fdiv (Fin a) NInf = Fin 0"
| "fdiv PInf (Fin b) = (if b < 0 then NInf else PInf)"
| "fdiv NInf (Fin b) = (if b < 0 then PInf else NInf)"
| "fdiv PInf PInf = NaN"
| "fdiv NInf NInf = NaN"
| "fdiv PInf NInf = NaN"
| "fdiv NInf PInf = NaN"

text \<open>\<^verbatim>\<open>np.log\<close>: minus infinity at zero, nan below zero (numpy warns and goes on).\<close>

fun flog :: "float64 \<Rightarrow> float64" where
  "flog (Fin r) = (if 0 < r then round64 (ln r) else if r = 0 then NInf else NaN)"
| "flog PInf = PInf"
| "flog NInf = NaN"
| "flog NaN = NaN"

text \<open>\<^verbatim>\<open>np.sqrt\<close>: nan below zero.\<close>

fun fsqrt :: "float64 \<Rightarrow> float64" where
  "fsqrt (Fin r) = (if r < 0 then NaN else round64 (sqrt r))"
| "fsqrt PInf = PInf"
| "fsqrt NInf = NaN"
| "fsqrt NaN = NaN"

text \<open>
  \<^verbatim>\<open>np.power(10.0, x)\<close>: the rounded power, which is \<open>0.0\<close> once \<open>10 powr x\<close> is
  below half the smallest subnormal number and \<open>+inf\<close> once it reaches \<open>big\<close>.
\<close>

fun power10 :: "float64 \<Rightarrow> float64" where
  "power10 (Fin r) = round64 (10 powr r)"
| "power10 PInf = PInf"
| "power10 NInf = Fin 0"
| "power10 NaN = NaN"

text \<open>
  \<^verbatim>\<open>np.sum\<close> of a one-dimensional float64 array adds the result of numpy's pairwise
  summation to the initial value 0. The pairwise summation of fewer than 8 elements adds
  them from left to right, starting from 0. Up to 128 elements it keeps eight
  accumulators, initialised with the first eight elements, adds the following blocks of
  eight elementwise (\<open>add_blocks\<close>), adds the accumulators in the order
  \<open>((r0 + r1) + (r2 + r3)) + ((r4 + r5) + (r6 + r7))\<close> (\<open>sum8\<close>) and then the elements left
  over. Above 128 elements it splits the array at half its length rounded down to a
  multiple of 8 and adds the sums of the two parts.
\<close>

fun add_blocks :: "float64 list \<Rightarrow> float64 list \<Rightarrow> float64 list \<times> float64 list" where
  "add_blocks r xs =
     (if length xs < 8 then (r, xs)
      else add_blocks (map2 fadd r (take 8 xs)) (drop 8 xs))"

definition sum8 :: "float64 list \<Rightarrow> float64" where
  "sum8 r =
     fadd (fadd (fadd (r ! 0) (r ! 1)) (fadd (r ! 2) (r ! 3)))
          (fadd (fadd (r ! 4) (r ! 5)) (fadd (r ! 6) (r ! 7)))"

function pairwise_sum :: "float64 list \<Rightarrow> float64" where
  "pairwise_sum xs =
     (let n = length xs
      in if n < 8 then foldl fadd (Fin 0) xs
         else if n \<le> 128 then
           (case add_blocks (take 8 xs) (drop 8 xs) of
              (r, rest) \<Rightarrow> foldl fadd (sum8 r) rest)
         else
           (let n2 = n div 2 - (n div 2) mod 8
            in fadd (pairwise_sum (take n2 xs)) (pairwise_sum (drop n2 xs))))"
  by pat_completeness auto

termination
  by (relation "measure length") (auto simp: Let_def)

definition np_sum :: "float64 list \<Rightarrow> float64" where
  "np_sum xs = fadd (Fin 0) (pairwise_sum xs)"

text \<open>
  Boolean mask indexing. \<open>mask_get ii xs\<close> is \<^verbatim>\<open>xs[ii]\<close> for a mask as long as the array,
  and \<open>mask_set xs ii vs\<close> is the array after \<^verbatim>\<open>xs[ii] = vs\<close>, which writes the values in
  order into the selected places. numpy raises IndexError when the mask and the array
  differ in length; the callers below test the lengths before they index.
\<close>

fun mask_get :: "bool list \<Rightarrow> 'a list \<Rightarrow> 'a list" where
  "mask_get (b # bs) (x # xs) = (if b then x # mask_get bs xs else mask_get bs xs)"
| "mask_get _ _ = []"

fun mask_set :: "'a list \<Rightarrow> bool list \<Rightarrow> 'a list \<Rightarrow> 'a list" where
  "mask_set (x # xs) (b # bs) vs =
     (if b then (case vs of [] \<Rightarrow> x # mask_set xs bs [] | v # vs' \<Rightarrow> v # mask_set xs bs vs')
      else x # mask_set xs bs vs)"
| "mask_set xs _ _ = xs"

text \<open>
  Elementwise \<^verbatim>\<open>+\<close> of two one-dimensional arrays with numpy's broadcasting: equal
  lengths, or one operand of length one; any other pair of shapes raises ValueError.
\<close>

definition np_add :: "float64 list \<Rightarrow> float64 list \<Rightarrow> py_error + float64 list" where
  "np_add xs ys =
     (if length xs = length ys then Inr (map2 fadd xs ys)
      else if length xs = 1 then Inr (map (fadd (hd xs)) ys)
      else if length ys = 1 then Inr (map (\<lambda>x. fadd x (hd ys)) xs)
      else Inl ValueError)"

subsection \<open>The objects\<close>

text \<open>
  \<^verbatim>\<open>self.model\<close> is a clarsach power law with the attributes \<^verbatim>\<open>norm\<close> and
  \<^verbatim>\<open>phoindex\<close>; the field for \<^verbatim>\<open>norm\<close> is called \<open>norm_pl\<close>, since \<open>norm\<close> is the
  vector norm in HOL.
\<close>

record Powerlaw =
  norm_pl :: float64
  phoindex :: float64

text \<open>
  The spectrum as the class reads it: the bin edges and the counts. The methods are written
  against \<^verbatim>\<open>self\<close> as the spectrum (\<^verbatim>\<open>self.counts\<close>, \<^verbatim>\<open>self.bin_counts\<close>,
  \<^verbatim>\<open>self.apply_resp\<close>); the record keeps the spectrum data in the field \<open>xspec\<close> that
  \<^verbatim>\<open>__init__\<close> fills, next to the model.
\<close>

record XraySpectrum =
  bin_lo :: "float64 list"
  bin_hi :: "float64 list"
  counts :: "float64 list"

record PowerlawPoissonFit =
  xspec :: XraySpectrum
  model :: Powerlaw

text \<open>
  The library methods the class calls: \<^verbatim>\<open>self.bin_counts(unit='keV')\<close> returns
  \<open>(elo, ehi, cts, cts_err)\<close>, \<^verbatim>\<open>self.model.calculate(elo, ehi)\<close> the model flux per bin,
  and \<^verbatim>\<open>self.apply_resp(mflux)\<close> the model counts per channel. The two methods of
  \<^verbatim>\<open>self\<close> see the whole object, the current model parameters included.
\<close>

record library =
  bin_counts :: "PowerlawPoissonFit \<Rightarrow> float64 list \<times> float64 list \<times> float64 list \<times> float64 list"
  calculate :: "Powerlaw \<Rightarrow> float64 list \<Rightarrow> float64 list \<Rightarrow> float64 list"
  apply_resp :: "PowerlawPoissonFit \<Rightarrow> float64 list \<Rightarrow> float64 list"

subsection \<open>The methods\<close>

text \<open>
  \<^verbatim>\<open>lognorm, pi = pars\<close> raises ValueError unless \<open>pars\<close> has two entries, before anything
  is assigned; otherwise both attributes of the model are overwritten. The second entry
  is called \<open>pidx\<close>, since \<open>pi\<close> is the real number in HOL.
\<close>

definition set_model_pars :: "PowerlawPoissonFit \<Rightarrow> float64 list \<Rightarrow> py_error + PowerlawPoissonFit" where
  "set_model_pars self pars =
     (case pars of
        [lognorm, pidx] \<Rightarrow>
          Inr (self\<lparr>model := (model self)\<lparr>norm_pl := power10 lognorm, phoindex := pidx\<rparr>\<rparr>)
      | _ \<Rightarrow> Inl ValueError)"

text \<open>\<^verbatim>\<open>emid = 0.5 * (elo + ehi)\<close>, in \<^verbatim>\<open>model_chist\<close> and in \<^verbatim>\<open>test_create_from_arrays\<close>.\<close>

definition emid :: "float64 list \<Rightarrow> float64 list \<Rightarrow> py_error + float64 list" where
  "emid elo ehi =
     (case np_add elo ehi of
        Inl e \<Rightarrow> Inl e
      | Inr s \<Rightarrow> Inr (map (fmul (Fin 0.5)) s))"

text \<open>
  A method returns its result, or the exception it raised, together with the object as it
  is afterwards: an exception raised after \<^verbatim>\<open>set_model_pars\<close> leaves the new parameters
  in the model.
\<close>

definition model_chist ::
  "library \<Rightarrow> PowerlawPoissonFit \<Rightarrow> float64 list \<Rightarrow> (py_error + float64 list) \<times> PowerlawPoissonFit" where
  "model_chist L self pars =
     (case bin_counts L self of
        (elo, ehi, cts, cts_err) \<Rightarrow>
          (case emid elo ehi of
             Inl e \<Rightarrow> (Inl e, self)
           | Inr em \<Rightarrow>
               (case set_model_pars self pars of
                  Inl e \<Rightarrow> (Inl e, self)
                | Inr self' \<Rightarrow>
                    (let mflux = calculate L (model self') elo ehi;
                         result = apply_resp L self' mflux
                     in (Inr result, self')))))"

text \<open>
  The body of \<^verbatim>\<open>loglikelihood\<close> once \<open>ymodel\<close> and \<open>ydata\<close> are bound:
  \<^verbatim>\<open>
    cvals   = np.zeros(len(ymodel))
    ii      = (ymodel != 0.0)
    cvals[ii] = ydata[ii] * np.log(ymodel[ii]) - ymodel[ii]
    loglike = np.sum(cvals)
    if np.isfinite(loglike): return loglike
    else: return -np.inf
  \<close>
  \<^verbatim>\<open>ydata[ii]\<close> raises IndexError when the data and the mask differ in length.
\<close>

definition loglikelihood_arrays :: "float64 list \<Rightarrow> float64 list \<Rightarrow> py_error + float64" where
  "loglikelihood_arrays ymodel ydata =
     (let cvals = replicate (length ymodel) (Fin 0);
          ii = map ne_zero ymodel
      in if length ydata \<noteq> length ii then Inl IndexError
         else
           (let cvals = mask_set cvals ii
                  (map2 fsub (map2 fmul (mask_get ii ydata) (map flog (mask_get ii ymodel)))
                     (mask_get ii ymodel));
                loglike = np_sum cvals
            in if isfinite loglike then Inr loglike else Inr (fneg PInf)))"

definition loglikelihood ::
  "library \<Rightarrow> PowerlawPoissonFit \<Rightarrow> float64 list \<Rightarrow> (py_error + float64) \<times> PowerlawPoissonFit" where
  "loglikelihood L self pars =
     (case model_chist L self pars of
        (Inl e, self') \<Rightarrow> (Inl e, self')
      | (Inr ymodel, self') \<Rightarrow> (loglikelihood_arrays ymodel (counts (xspec self')), self'))"

text \<open>\<^verbatim>\<open>result = self.loglikelihood(pars); return -result/2.0\<close>\<close>

definition cash ::
  "library \<Rightarrow> PowerlawPoissonFit \<Rightarrow> float64 list \<Rightarrow> (py_error + float64) \<times> PowerlawPoissonFit" where
  "cash L self pars =
     (case loglikelihood L self pars of
        (Inl e, self') \<Rightarrow> (Inl e, self')
      | (Inr result, self') \<Rightarrow> (Inr (fdiv (fneg result) (Fin 2)), self'))"

text \<open>
  The value \<^verbatim>\<open>cash\<close> returns when \<^verbatim>\<open>model_chist\<close> yields \<open>ymodel\<close> and the counts are
  \<open>ydata\<close>: the two method bodies in sequence, as a function of the two arrays.
\<close>

definition cash_arrays :: "float64 list \<Rightarrow> float64 list \<Rightarrow> py_error + float64" where
  "cash_arrays ymodel ydata =
     (case loglikelihood_arrays ymodel ydata of
        Inl e \<Rightarrow> Inl e
      | Inr result \<Rightarrow> Inr (fdiv (fneg result) (Fin 2)))"

text \<open>
  The body of \<^verbatim>\<open>mod_residuals\<close> once \<open>mcounts\<close> is bound, with \<open>cts\<close> for
  \<^verbatim>\<open>self.counts\<close>:
  \<^verbatim>\<open>
    cts_err = np.sqrt(self.counts)
    result  = np.zeros(len(self.counts))
    ii      = (cts_err != 0.0)
    result[ii] = (mcounts[ii] - self.counts[ii])/cts_err[ii]
    return result
  \<close>
  \<^verbatim>\<open>mcounts[ii]\<close> raises IndexError when the model counts and the mask differ in length.
\<close>

definition mod_residuals_arrays :: "float64 list \<Rightarrow> float64 list \<Rightarrow> py_error + float64 list" where
  "mod_residuals_arrays mcounts cts =
     (let cts_err = map fsqrt cts;
          result = replicate (length cts) (Fin 0);
          ii = map ne_zero cts_err
      in if length mcounts \<noteq> length ii then Inl IndexError
         else Inr (mask_set result ii
                (map2 fdiv (map2 fsub (mask_get ii mcounts) (mask_get ii cts))
                   (mask_get ii cts_err))))"

definition mod_residuals ::
  "library \<Rightarrow> PowerlawPoissonFit \<Rightarrow> float64 list \<Rightarrow> (py_error + float64 list) \<times> PowerlawPoissonFit" where
  "mod_residuals L self pars =
     (case model_chist L self pars of
        (Inl e, self') \<Rightarrow> (Inl e, self')
      | (Inr mcounts, self') \<Rightarrow> (mod_residuals_arrays mcounts (counts (xspec self')), self'))"

subsection \<open>Notions used to state the properties\<close>

text \<open>The contribution of one bin to the sum in \<^verbatim>\<open>loglikelihood\<close>: zero where the mask is off.\<close>

definition cval :: "float64 \<Rightarrow> float64 \<Rightarrow> float64" where
  "cval m x = (if ne_zero m then fsub (fmul x (flog m)) m else Fin 0)"

text \<open>The residual of one bin in \<^verbatim>\<open>mod_residuals\<close>: zero where the mask is off.\<close>

definition resid :: "float64 \<Rightarrow> float64 \<Rightarrow> float64" where
  "resid m c = (if ne_zero (fsqrt c) then fdiv (fsub m c) (fsqrt c) else Fin 0)"

text \<open>
  The log-likelihood in the words of the specification, for finite predicted counts \<open>ms\<close>
  and observed counts \<open>xs\<close>, in real arithmetic: the sum of \<open>x * ln m - m\<close> over the bins
  with \<open>m > 0\<close>, every other bin contributing 0.
\<close>

definition spec_logLikelihood :: "real list \<Rightarrow> real list \<Rightarrow> real" where
  "spec_logLikelihood ms xs = (\<Sum>(m, x) \<leftarrow> zip ms xs. if 0 < m then x * ln m - m else 0)"

text \<open>The comparisons \<^verbatim>\<open>x >= 0\<close> and \<^verbatim>\<open>x > 0\<close> on float64: false for nan.\<close>

fun ge_zero :: "float64 \<Rightarrow> bool" where
  "ge_zero (Fin r) = (0 \<le> r)"
| "ge_zero PInf = True"
| "ge_zero NInf = False"
| "ge_zero NaN = False"

fun gt_zero :: "float64 \<Rightarrow> bool" where
  "gt_zero (Fin r) = (0 < r)"
| "gt_zero PInf = True"
| "gt_zero NInf = False"
| "gt_zero NaN = False"

text \<open>
  The contribution of one bin by the sign of the predicted count: the float64 value of
  \<open>x * ln m - m\<close> for a positive count, nan for a negative count and for nan, and 0 for
  the count zero.
\<close>

definition bin_term :: "float64 \<Rightarrow> float64 \<Rightarrow> float64" where
  "bin_term m x =
     (if gt_zero m then fsub (fmul x (flog m)) m else if ne_zero m then NaN else Fin 0)"

text \<open>A finite value of magnitude at most \<open>c\<close>.\<close>

definition bnd :: "real \<Rightarrow> float64 \<Rightarrow> bool" where
  "bnd c v = (case v of Fin r \<Rightarrow> \<bar>r\<bar> \<le> c | _ \<Rightarrow> False)"

text \<open>
  The real number that a finite float64 value denotes; the statements use it on finite
  values only.
\<close>

fun fval :: "float64 \<Rightarrow> real" where
  "fval (Fin r) = r"
| "fval PInf = 0"
| "fval NInf = 0"
| "fval NaN = 0"



text \<open>
  The values that adding up the elements of a multiset can give, in some order and with
  some bracketing, zeros put in anywhere: every summation scheme of \<^verbatim>\<open>np.sum\<close> is
  one of them.
\<close>

inductive sum_of :: "float64 multiset \<Rightarrow> float64 \<Rightarrow> bool" where
  sum_of_empty: "sum_of {#} (Fin 0)"
| sum_of_single: "sum_of {#x#} x"
| sum_of_add: "sum_of A a \<Longrightarrow> sum_of B b \<Longrightarrow> sum_of (A + B) (fadd a b)"


text \<open>
  An instance of the library for concrete evaluations: \<^verbatim>\<open>bin_counts\<close> hands out the
  spectrum's arrays with the square roots of the counts as errors, the flux of every bin
  is the amplitude of the power law, and the response is the identity.
\<close>

definition flat_library :: library where
  "flat_library =
     \<lparr>bin_counts = (\<lambda>s. (bin_lo (xspec s), bin_hi (xspec s), counts (xspec s),
                          map fsqrt (counts (xspec s)))),
      calculate = (\<lambda>m elo ehi. map (\<lambda>e. norm_pl m) elo),
      apply_resp = (\<lambda>s mflux. mflux)\<rparr>"

text \<open>A spectrum of one bin from 1 to 2 keV holding one count, with a power law attached.\<close>

definition one_bin_fit :: PowerlawPoissonFit where
  "one_bin_fit =
     \<lparr>xspec = \<lparr>bin_lo = [Fin 1], bin_hi = [Fin 2], counts = [Fin 1]\<rparr>,
      model = \<lparr>norm_pl = Fin 1, phoindex = Fin 2\<rparr>\<rparr>"

text \<open>The recursion equations of the summation are unfolded by hand where they are needed.\<close>

declare add_blocks.simps [simp del]

declare pairwise_sum.simps [simp del]

section \<open>Properties\<close>

subsection \<open>Rounding to the nearest integer\<close>

lemma floor_le_rhe: "\<lfloor>q\<rfloor> \<le> rhe q"
  by (simp add: rhe_def Let_def)

lemma rhe_le_floor1: "rhe q \<le> \<lfloor>q\<rfloor> + 1"
  by (simp add: rhe_def Let_def)

lemma rhe_exact: "q = of_int \<lfloor>q\<rfloor> \<Longrightarrow> rhe q = \<lfloor>q\<rfloor>"
  by (simp add: rhe_def Let_def)

lemma rhe_ge: "of_int j \<le> q \<Longrightarrow> j \<le> rhe q"
  using floor_le_rhe [of q] by (simp add: le_floor_iff [symmetric])

lemma rhe_le:
  assumes "q \<le> of_int j"
  shows "rhe q \<le> j"
proof (cases "q = of_int \<lfloor>q\<rfloor>")
  case True
  then have "rhe q = \<lfloor>q\<rfloor>" by (rule rhe_exact)
  moreover from assms have "\<lfloor>q\<rfloor> \<le> j" by (simp add: floor_le_iff)
  ultimately show ?thesis by simp
next
  case False
  then have "of_int \<lfloor>q\<rfloor> < q" using of_int_floor_le [of q] by linarith
  with assms have "of_int \<lfloor>q\<rfloor> < (of_int j :: real)" by simp
  then have "\<lfloor>q\<rfloor> < j" by simp
  with rhe_le_floor1 [of q] show ?thesis by simp
qed

lemma rhe_of_int: "rhe (of_int n) = n"
  by (simp add: rhe_def Let_def)

subsection \<open>Binades\<close>

lemma ulp_pos: "0 < ulp x"
  by (simp add: ulp_def)

lemma pow2_split:
  assumes "a \<le> b"
  shows "(2 :: real) powr of_int b = 2 powr of_int a * of_int (2 ^ nat (b - a))"
proof -
  have "2 powr of_int b = (2 :: real) powr (of_int a + of_int (b - a))" by simp
  also have "\<dots> = 2 powr of_int a * 2 powr of_int (b - a)" by (rule powr_add)
  also have "2 powr (of_int (b - a) :: real) = 2 powr real (nat (b - a))"
    using assms by simp
  also have "\<dots> = 2 ^ nat (b - a)" by (simp add: powr_realpow)
  finally show ?thesis by simp
qed

lemma expo_ge: "- 1022 \<le> expo x"
  by (simp add: expo_def)

lemma expo_lower:
  assumes "0 < x" "- 1022 < expo x"
  shows "2 powr of_int (expo x) \<le> x"
proof -
  from assms(2) have e: "expo x = \<lfloor>log 2 x\<rfloor>" by (simp add: expo_def max_def split: if_splits)
  have "2 powr of_int \<lfloor>log 2 x\<rfloor> \<le> 2 powr log 2 x" by simp
  also have "\<dots> = x" using assms(1) by simp
  finally show ?thesis by (simp add: e)
qed

lemma expo_upper:
  assumes "0 < x"
  shows "x < 2 powr of_int (expo x + 1)"
proof -
  have "x = 2 powr log 2 x" using assms by simp
  also have "\<dots> < 2 powr of_int (\<lfloor>log 2 x\<rfloor> + 1)" by simp
  also have "\<dots> \<le> 2 powr of_int (expo x + 1)" by (simp add: expo_def)
  finally show ?thesis .
qed

lemma expo_mono:
  assumes "0 < x" "x \<le> b"
  shows "expo x \<le> expo b"
proof -
  have "log 2 x \<le> log 2 b" using assms by simp
  then have "\<lfloor>log 2 x\<rfloor> \<le> \<lfloor>log 2 b\<rfloor>" by (rule floor_mono)
  then show ?thesis unfolding expo_def by (intro max.mono) simp_all
qed

lemma expo_eq:
  assumes "0 < x" "2 powr of_int e \<le> x" "x < 2 powr of_int (e + 1)" "- 1022 \<le> e"
  shows "expo x = e"
proof -
  have "\<lfloor>log 2 x\<rfloor> = e" using assms by (simp add: floor_log_eq_powr_iff)
  with assms(4) show ?thesis by (simp add: expo_def)
qed

lemma expo_small:
  assumes "0 < x" "x < 2 powr (- 1022)"
  shows "expo x = - 1022"
proof -
  have "log 2 x < - 1022" using assms by (simp add: log_less_iff)
  then have "\<lfloor>log 2 x\<rfloor> < - 1022" by (simp add: floor_less_iff)
  then show ?thesis by (simp add: expo_def)
qed

subsection \<open>Rounding stays between float64 values\<close>

text \<open>
  The rounded value of \<open>x\<close> is a multiple of \<open>ulp x\<close> at distance at most half of it from
  \<open>x\<close>; a float64 value on either side of \<open>x\<close> is a multiple of \<open>ulp x\<close> too, or lies
  outside the binade, so rounding cannot cross it.
\<close>

lemma rval_le:
  assumes "x \<le> of_int j * ulp x"
  shows "rval x \<le> of_int j * ulp x"
proof -
  from assms have "x / ulp x \<le> of_int j" using ulp_pos [of x] by (simp add: pos_divide_le_eq)
  then have "rhe (x / ulp x) \<le> j" by (rule rhe_le)
  then have "of_int (rhe (x / ulp x)) * ulp x \<le> of_int j * ulp x"
    using ulp_pos [of x] by simp
  then show ?thesis by (simp add: rval_def mult.commute)
qed

lemma rval_ge:
  assumes "of_int j * ulp x \<le> x"
  shows "of_int j * ulp x \<le> rval x"
proof -
  from assms have "of_int j \<le> x / ulp x" using ulp_pos [of x] by (simp add: pos_le_divide_eq)
  then have "j \<le> rhe (x / ulp x)" by (rule rhe_ge)
  then have "of_int j * ulp x \<le> of_int (rhe (x / ulp x)) * ulp x"
    using ulp_pos [of x] by simp
  then show ?thesis by (simp add: rval_def mult.commute)
qed

lemma rval_nonneg: "0 \<le> x \<Longrightarrow> 0 \<le> rval x"
  using rval_ge [of 0 x] by simp

lemma pow_expo_ulp: "2 powr of_int (expo x + d) = of_int (2 ^ nat (52 + d)) * ulp x" if "0 \<le> d"
proof -
  have "expo x - 52 \<le> expo x + d" using that by simp
  from pow2_split [OF this] show ?thesis
    using that by (simp add: ulp_def mult.commute)
qed

lemma rval_ge_pow:
  assumes "0 < x" "- 1022 < expo x"
  shows "2 powr of_int (expo x) \<le> rval x"
proof -
  have p: "2 powr of_int (expo x) = of_int (2 ^ 52) * ulp x"
    using pow_expo_ulp [of 0 x] by simp
  have "2 powr of_int (expo x) \<le> x" using assms by (rule expo_lower)
  with p have "of_int (2 ^ 52) * ulp x \<le> x" by simp
  then have "of_int (2 ^ 52) * ulp x \<le> rval x" by (rule rval_ge)
  with p show ?thesis by simp
qed

lemma pdoubleD:
  assumes "0 < b" "round_pos b = Fin b"
  shows "b = rval b" "b < big"
  using assms by (auto simp: round_pos_def split: if_splits)

lemma double_multiple:
  assumes "0 < x" "x \<le> b" "round_pos b = Fin b"
  shows "\<exists>j. b = of_int j * ulp x"
proof -
  from assms have b: "0 < b" by simp
  from b assms(3) have "b = rval b" by (rule pdoubleD)
  then have 1: "b = ulp b * of_int (rhe (b / ulp b))" by (simp add: rval_def)
  have "expo x \<le> expo b" using assms(1,2) by (rule expo_mono)
  then have "expo x - 52 \<le> expo b - 52" by simp
  from pow2_split [OF this]
  have "ulp b = ulp x * of_int (2 ^ nat (expo b - expo x))" by (simp add: ulp_def)
  with 1 have "b = of_int (2 ^ nat (expo b - expo x) * rhe (b / ulp b)) * ulp x"
    by (simp add: mult.commute mult.left_commute)
  then show ?thesis ..
qed

lemma round_pos_upper:
  assumes "0 < x" "x \<le> b" "round_pos b = Fin b"
  shows "round_pos x = Fin (rval x) \<and> rval x \<le> b"
proof -
  from assms obtain j where j: "b = of_int j * ulp x" using double_multiple by blast
  with assms(2) have "x \<le> of_int j * ulp x" by simp
  then have "rval x \<le> of_int j * ulp x" by (rule rval_le)
  with j have le: "rval x \<le> b" by simp
  from assms have "0 < b" by simp
  from this assms(3) have "b < big" by (rule pdoubleD)
  with le have "\<not> big \<le> rval x" by simp
  with assms(1) le show ?thesis by (simp add: round_pos_def)
qed

lemma round_pos_lower:
  assumes "0 < a" "a \<le> x" "round_pos a = Fin a"
  shows "a \<le> rval x"
proof (cases "expo a = expo x")
  case True
  then have u: "ulp a = ulp x" by (simp add: ulp_def)
  from assms(1,3) have "a = rval a" by (rule pdoubleD)
  with u have "a = of_int (rhe (a / ulp a)) * ulp x" by (simp add: rval_def mult.commute)
  moreover from this assms(2) have "of_int (rhe (a / ulp a)) * ulp x \<le> x" by simp
  then have "of_int (rhe (a / ulp a)) * ulp x \<le> rval x" by (rule rval_ge)
  ultimately show ?thesis by simp
next
  case False
  have "expo a \<le> expo x" using assms(1,2) by (rule expo_mono)
  with False have lt: "expo a + 1 \<le> expo x" by simp
  have x: "0 < x" using assms by simp
  have "- 1022 < expo x" using lt expo_ge [of a] by simp
  with x have "2 powr of_int (expo x) \<le> rval x" by (rule rval_ge_pow)
  moreover have "a < 2 powr of_int (expo a + 1)" using assms(1) by (rule expo_upper)
  moreover have "(2 :: real) powr of_int (expo a + 1) \<le> 2 powr of_int (expo x)"
    using lt by simp
  ultimately show ?thesis by linarith
qed

lemma fneg_fneg: "fneg (fneg v) = v"
  by (cases v) simp_all

lemma round_pos_zero: "round_pos 0 = Fin 0"
  by (simp add: round_pos_def)

lemma round64_minus: "round64 (- x) = fneg (round64 x)"
proof -
  consider "x < 0" | "x = 0" | "0 < x" by linarith
  then show ?thesis
  proof cases
    case 1
    then show ?thesis by (simp add: round64_def fneg_fneg)
  next
    case 2
    then show ?thesis by (simp add: round64_def round_pos_zero)
  next
    case 3
    then show ?thesis by (simp add: round64_def)
  qed
qed

lemma double_zero: "double 0"
  by (simp add: double_def round64_def round_pos_zero)

lemma double_minus: "double (- x) = double x"
proof -
  have "fneg (round64 x) = Fin (- x) \<longleftrightarrow> round64 x = Fin x"
    by (cases "round64 x") simp_all
  then show ?thesis by (simp add: double_def round64_minus)
qed

lemma double_pos: "0 < b \<Longrightarrow> double b \<Longrightarrow> round_pos b = Fin b"
  by (simp add: double_def round64_def)

lemma round64_ge:
  assumes "double a" "a \<le> x"
  shows "round64 x = PInf \<or> (\<exists>y. round64 x = Fin y \<and> a \<le> y)"
proof -
  consider "x < 0" | "x = 0" | "0 < x" by linarith
  then show ?thesis
  proof cases
    case 1
    with assms have a: "0 < - a" "- x \<le> - a" "0 < - x" by simp_all
    from assms(1) have "double (- a)" by (simp add: double_minus)
    with a have "round_pos (- a) = Fin (- a)" by (simp add: double_pos)
    with a have "round_pos (- x) = Fin (rval (- x)) \<and> rval (- x) \<le> - a"
      by (intro round_pos_upper)
    with 1 show ?thesis by (simp add: round64_def)
  next
    case 2
    with assms show ?thesis by (simp add: round64_def round_pos_zero)
  next
    case 3
    have "a \<le> rval x"
    proof (cases "0 < a")
      case True
      with assms have "round_pos a = Fin a" by (simp add: double_pos)
      with True assms(2) show ?thesis by (intro round_pos_lower)
    next
      case False
      with rval_nonneg [of x] 3 show ?thesis by simp
    qed
    with 3 show ?thesis by (simp add: round64_def round_pos_def)
  qed
qed

lemma round64_le:
  assumes "double b" "x \<le> b"
  shows "round64 x = NInf \<or> (\<exists>y. round64 x = Fin y \<and> y \<le> b)"
proof -
  from assms have "double (- b)" "- b \<le> - x" by (simp_all add: double_minus)
  then have "round64 (- x) = PInf \<or> (\<exists>y. round64 (- x) = Fin y \<and> - b \<le> y)"
    by (rule round64_ge)
  then show ?thesis
    by (cases "round64 x") (auto simp: round64_minus)
qed

lemma round64_between:
  assumes "double a" "double b" "a \<le> x" "x \<le> b"
  shows "\<exists>y. round64 x = Fin y \<and> a \<le> y \<and> y \<le> b"
  using round64_ge [OF assms(1,3)] round64_le [OF assms(2,4)] by auto

lemma round64_double: "double x \<Longrightarrow> round64 x = Fin x"
  by (simp add: double_def)

subsection \<open>Overflow, underflow and the float64 values with a short mantissa\<close>

lemma big_eq: "big = 2 powr of_int 1024"
  by (simp add: big_def)

lemma big_pos: "0 < big"
  by (simp add: big_eq del: powr_numeral)

lemma round_pos_range: "round_pos x = Fin y \<Longrightarrow> 0 \<le> x \<Longrightarrow> 0 \<le> y \<and> y < big"
  using rval_nonneg [of x] big_pos by (auto simp: round_pos_def split: if_splits)

lemma round64_range:
  assumes "round64 x = Fin y"
  shows "\<bar>y\<bar> < big"
proof (cases "x < 0")
  case True
  with assms have "fneg (round_pos (- x)) = Fin y" by (simp add: round64_def)
  then have r: "round_pos (- x) = Fin (- y)" by (cases "round_pos (- x)") auto
  from True have "0 \<le> - x" by simp
  with r have "0 \<le> - y \<and> - y < big" by (rule round_pos_range)
  then show ?thesis by simp
next
  case False
  with assms have r: "round_pos x = Fin y" by (simp add: round64_def)
  from False have "0 \<le> x" by simp
  with r have "0 \<le> y \<and> y < big" by (rule round_pos_range)
  then show ?thesis by simp
qed

lemma round64_overflow:
  assumes "big \<le> x"
  shows "round64 x = PInf"
proof -
  have x: "0 < x" using assms big_pos by linarith
  from assms have "(2 :: real) powr of_int 1024 \<le> x" by (simp only: big_eq)
  then have "of_int 1024 \<le> log 2 x" using x by (simp only: le_log_iff)
  then have "1024 \<le> \<lfloor>log 2 x\<rfloor>" by (simp only: le_floor_iff)
  then have e: "1024 \<le> expo x" by (simp add: expo_def)
  then have "- 1022 < expo x" by simp
  with x have "2 powr of_int (expo x) \<le> rval x" by (rule rval_ge_pow)
  moreover have "(2 :: real) powr of_int 1024 \<le> 2 powr of_int (expo x)"
    using e by (intro powr_mono) simp_all
  ultimately have "big \<le> rval x" by (simp only: big_eq)
  with x show ?thesis by (simp add: round64_def round_pos_def)
qed

lemma round64_underflow:
  assumes "0 \<le> x" "x < 2 powr (- 1075)"
  shows "round64 x = Fin 0"
proof (cases "x = 0")
  case True
  then show ?thesis by (simp add: round64_def round_pos_zero)
next
  case False
  with assms have x: "0 < x" by simp
  have "(2 :: real) powr (- 1075) \<le> 2 powr (- 1022)" by (intro powr_mono) simp_all
  with assms have "x < 2 powr (- 1022)" by linarith
  with x have e: "expo x = - 1022" by (rule expo_small)
  then have u: "ulp x = 2 powr (- 1074)" by (simp add: ulp_def del: powr_numeral)
  have "(2 :: real) powr (- 1075 + 1) = 2 powr (- 1075) * 2 powr 1" by (rule powr_add)
  then have "(2 :: real) powr (- 1074) = 2 powr (- 1075) * 2" by simp
  with assms(2) have "x < ulp x * (1 / 2)" by (simp only: u)
  then have "x / ulp x < 1 / 2" using ulp_pos [of x] by (simp add: pos_divide_less_eq mult.commute)
  moreover have "0 \<le> x / ulp x" using x ulp_pos [of x] by simp
  moreover define q where "q = x / ulp x"
  ultimately have q: "q < 1 / 2" "0 \<le> q" by simp_all
  then have "\<lfloor>q\<rfloor> = 0" by (simp add: floor_eq_iff)
  with q have "rhe q = 0" by (simp add: rhe_def Let_def)
  then have "rhe (x / ulp x) = 0" by (simp only: q_def)
  then have "rval x = 0" by (simp add: rval_def)
  with x big_pos show ?thesis by (simp add: round64_def round_pos_def)
qed

lemma double_mantissa:
  assumes "\<bar>m\<bar> < 2 ^ 53" "- 1074 \<le> k" "k \<le> 971"
  shows "double (of_int m * 2 powr of_int k)"
proof -
  have pos: "double (of_int n * 2 powr of_int k)" if n: "0 < n" "n < 2 ^ 53" for n :: int
  proof -
    define x :: real where "x = of_int n * 2 powr of_int k"
    have x: "0 < x" using n by (simp add: x_def)
    have "of_int n < (2 :: real) ^ 53" using n(2) by (metis of_int_less_numeral_power_cancel_iff)
    then have "of_int n * 2 powr of_int k < (2 :: real) ^ 53 * 2 powr of_int k" by simp
    also have "(2 :: real) ^ 53 = 2 powr of_int 53" using powr_realpow [of 2 53] by simp
    also have "2 powr of_int 53 * 2 powr of_int k = (2 :: real) powr of_int (k + 53)"
      by (simp add: powr_add del: powr_numeral)
    finally have up: "x < 2 powr of_int (k + 53)" by (simp add: x_def)
    have le: "expo x \<le> k + 52"
    proof (rule ccontr)
      assume "\<not> expo x \<le> k + 52"
      then have g: "k + 53 \<le> expo x" by simp
      with assms(2) have "- 1022 < expo x" by simp
      with x have "2 powr of_int (expo x) \<le> x" by (rule expo_lower)
      moreover have "(2 :: real) powr of_int (k + 53) \<le> 2 powr of_int (expo x)"
        using g by (intro powr_mono) simp_all
      ultimately show False using up by linarith
    qed
    define N where "N = n * 2 ^ nat (k - (expo x - 52))"
    from le have "expo x - 52 \<le> k" by simp
    from pow2_split [OF this]
    have "2 powr of_int k = ulp x * of_int (2 ^ nat (k - (expo x - 52)))" by (simp add: ulp_def)
    then have m: "x = of_int N * ulp x"
      by (simp add: x_def N_def mult.commute mult.left_commute)
    then have "x / ulp x = of_int N \<or> ulp x = 0"
      by (metis nonzero_mult_div_cancel_right)
    then have "x / ulp x = of_int N" using ulp_pos [of x] by simp
    then have "rhe (x / ulp x) = N" by (simp only: rhe_of_int)
    with m have r: "rval x = x" by (simp add: rval_def mult.commute)
    have "(2 :: real) powr of_int (k + 53) \<le> 2 powr of_int 1024"
      using assms(3) by (intro powr_mono) simp_all
    with up have "x < big" by (simp only: big_eq)
    with r x have "double x" by (simp add: double_def round64_def round_pos_def)
    then show ?thesis by (simp only: x_def)
  qed
  consider "m < 0" | "m = 0" | "0 < m" by linarith
  then show ?thesis
  proof cases
    case 1
    with assms(1) have "double (of_int (- m) * 2 powr of_int k)" by (intro pos) simp_all
    then have "double (- (of_int m * 2 powr of_int k))" by simp
    then show ?thesis by (simp only: double_minus)
  next
    case 2
    then show ?thesis by (simp add: double_zero)
  next
    case 3
    with assms(1) show ?thesis by (intro pos) simp_all
  qed
qed

lemma double_of_int: "\<bar>n\<bar> < 2 ^ 53 \<Longrightarrow> double (of_int n)"
  using double_mantissa [of n 0] by simp

subsection \<open>Summation\<close>

text \<open>
  Every summation scheme above adds up the elements of the array in some order: the result
  of \<^verbatim>\<open>np.sum\<close> is one of the sums of the multiset of the elements.
\<close>

lemma sum_of_foldl: "sum_of A a \<Longrightarrow> sum_of (A + mset xs) (foldl fadd a xs)"
proof (induction xs arbitrary: A a)
  case Nil
  then show ?case by simp
next
  case (Cons x xs)
  from Cons.prems have "sum_of (A + {#x#}) (fadd a x)" by (intro sum_of_add sum_of_single)
  from Cons.IH [OF this] show ?case by (simp add: ac_simps)
qed

lemma list8:
  assumes "length xs = 8"
  obtains a b c d e f g h where "xs = [a, b, c, d, e, f, g, h]"
proof -
  from assms have "\<exists>a b c d e f g h. xs = [a, b, c, d, e, f, g, h]"
    by (auto simp: length_Suc_conv eval_nat_numeral)
  then show ?thesis using that by blast
qed

lemma sum_of_map2:
  "list_all2 sum_of Ms r \<Longrightarrow> length bl = length r \<Longrightarrow>
   list_all2 sum_of (map2 (+) Ms (map (\<lambda>x. {#x#}) bl)) (map2 fadd r bl)"
proof (induction Ms r arbitrary: bl rule: list_all2_induct)
  case Nil
  then show ?case by simp
next
  case (Cons M Ms a r)
  from Cons.prems obtain x bl' where bl: "bl = x # bl'" "length bl' = length r"
    by (cases bl) auto
  from Cons.hyps(1) have "sum_of (M + {#x#}) (fadd a x)" by (intro sum_of_add sum_of_single)
  with Cons.IH [OF bl(2)] bl show ?case by simp
qed

lemma sum_list_map2_single:
  "length Ms = length bl \<Longrightarrow>
   sum_list (map2 (+) Ms (map (\<lambda>x. {#x#}) bl)) = sum_list Ms + mset bl"
  by (induction Ms bl rule: list_induct2) (simp_all add: ac_simps)

lemma add_blocks_sum_of:
  "length r = 8 \<Longrightarrow> list_all2 sum_of Ms r \<Longrightarrow> add_blocks r xs = (r', rest) \<Longrightarrow>
   length r' = 8 \<and> (\<exists>Ms'. list_all2 sum_of Ms' r' \<and> sum_list Ms' + mset rest = sum_list Ms + mset xs)"
proof (induction r xs arbitrary: Ms rule: add_blocks.induct)
  case (1 r xs)
  show ?case
  proof (cases "length xs < 8")
    case True
    with "1.prems" show ?thesis by (auto simp: add_blocks.simps [of r xs])
  next
    case False
    let ?bl = "take 8 xs"
    let ?r2 = "map2 fadd r ?bl"
    let ?Ms2 = "map2 (+) Ms (map (\<lambda>x. {#x#}) ?bl)"
    from False have len: "length ?bl = length r" using "1.prems"(1) by simp
    from "1.prems"(2) have lenM: "length Ms = length ?bl"
      using len by (simp add: list_all2_lengthD)
    have a: "list_all2 sum_of ?Ms2 ?r2" using "1.prems"(2) len by (rule sum_of_map2)
    have b: "length ?r2 = 8" using len "1.prems"(1) by simp
    from False "1.prems"(3) have c: "add_blocks ?r2 (drop 8 xs) = (r', rest)"
      by (simp add: add_blocks.simps [of r xs])
    from "1.IH" [OF False b a c]
    obtain Ms' where Ms': "length r' = 8" "list_all2 sum_of Ms' r'"
      "sum_list Ms' + mset rest = sum_list ?Ms2 + mset (drop 8 xs)" by blast
    have "sum_list ?Ms2 = sum_list Ms + mset ?bl" using lenM by (rule sum_list_map2_single)
    moreover have "mset ?bl + mset (drop 8 xs) = mset xs"
      by (metis append_take_drop_id mset_append)
    ultimately have "sum_list Ms' + mset rest = sum_list Ms + mset xs"
      using Ms'(3) by (simp add: ac_simps)
    with Ms'(1,2) show ?thesis by blast
  qed
qed

lemma sum8_sum_of:
  assumes "list_all2 sum_of Ms r" "length r = 8"
  shows "sum_of (sum_list Ms) (sum8 r)"
proof -
  from assms(2) obtain a b c d e f g h where r: "r = [a, b, c, d, e, f, g, h]" by (rule list8)
  from assms have "length Ms = 8" by (simp add: list_all2_lengthD)
  then obtain A B C D E F G H where Ms: "Ms = [A, B, C, D, E, F, G, H]" by (rule list8)
  from assms(1) have s: "sum_of A a" "sum_of B b" "sum_of C c" "sum_of D d"
    "sum_of E e" "sum_of F f" "sum_of G g" "sum_of H h" by (simp_all add: r Ms)
  have "sum_of (((A + B) + (C + D)) + ((E + F) + (G + H)))
          (fadd (fadd (fadd a b) (fadd c d)) (fadd (fadd e f) (fadd g h)))"
    by (intro sum_of_add s)
  then show ?thesis by (simp add: r Ms sum8_def ac_simps)
qed

lemma single_sum_of: "list_all2 sum_of (map (\<lambda>x. {#x#}) xs) xs"
  by (induction xs) (simp_all add: sum_of_single)

lemma sum_list_single: "sum_list (map (\<lambda>x. {#x#}) xs) = mset xs"
  by (induction xs) simp_all

lemma pairwise_sum_of: "sum_of (mset xs) (pairwise_sum xs)"
proof (induction xs rule: pairwise_sum.induct)
  case (1 xs)
  consider "length xs < 8" | "8 \<le> length xs" "length xs \<le> 128" | "128 < length xs" by linarith
  then show ?case
  proof cases
    case 1
    have "sum_of ({#} + mset xs) (foldl fadd (Fin 0) xs)" by (intro sum_of_foldl sum_of_empty)
    with 1 show ?thesis by (simp add: pairwise_sum.simps [of xs])
  next
    case 2
    obtain r rest where ab: "add_blocks (take 8 xs) (drop 8 xs) = (r, rest)"
      by (cases "add_blocks (take 8 xs) (drop 8 xs)")
    have l: "length (take 8 xs) = 8" using 2 by simp
    from add_blocks_sum_of [OF l single_sum_of ab]
    obtain Ms where Ms: "length r = 8" "list_all2 sum_of Ms r"
      "sum_list Ms + mset rest = sum_list (map (\<lambda>x. {#x#}) (take 8 xs)) + mset (drop 8 xs)"
      by blast
    have "mset (take 8 xs) + mset (drop 8 xs) = mset xs"
      by (metis append_take_drop_id mset_append)
    with Ms(3) have e: "sum_list Ms + mset rest = mset xs" by (simp add: sum_list_single)
    have "sum_of (sum_list Ms) (sum8 r)" using Ms(2,1) by (rule sum8_sum_of)
    then have "sum_of (sum_list Ms + mset rest) (foldl fadd (sum8 r) rest)" by (rule sum_of_foldl)
    with e 2 ab show ?thesis by (simp add: pairwise_sum.simps [of xs])
  next
    case 3
    define n2 where "n2 = length xs div 2 - (length xs div 2) mod 8"
    from 3 have c: "\<not> length xs < 8" "\<not> length xs \<le> 128" by simp_all
    have "sum_of (mset (take n2 xs)) (pairwise_sum (take n2 xs))"
      using "1.IH"(1) [OF refl c n2_def] .
    moreover have "sum_of (mset (drop n2 xs)) (pairwise_sum (drop n2 xs))"
      using "1.IH"(2) [OF refl c n2_def] .
    ultimately have "sum_of (mset (take n2 xs) + mset (drop n2 xs))
        (fadd (pairwise_sum (take n2 xs)) (pairwise_sum (drop n2 xs)))" by (rule sum_of_add)
    moreover have "mset (take n2 xs) + mset (drop n2 xs) = mset xs"
      by (metis append_take_drop_id mset_append)
    ultimately show ?thesis using c by (simp add: pairwise_sum.simps [of xs] Let_def n2_def)
  qed
qed

lemma np_sum_of: "sum_of (mset xs) (np_sum xs)"
proof -
  have "sum_of ({#} + mset xs) (fadd (Fin 0) (pairwise_sum xs))"
    by (intro sum_of_add sum_of_empty pairwise_sum_of)
  then show ?thesis by (simp add: np_sum_def)
qed

lemma fadd_NaN_right: "fadd x NaN = NaN"
  by (cases x) simp_all

lemma sum_of_NaN: "sum_of A v \<Longrightarrow> NaN \<in># A \<Longrightarrow> v = NaN"
  by (induction rule: sum_of.induct) (auto simp: fadd_NaN_right)

lemma np_sum_NaN: "NaN \<in> set xs \<Longrightarrow> np_sum xs = NaN"
  using sum_of_NaN [OF np_sum_of [of xs]] by simp

lemma np_sum_short: "length xs < 8 \<Longrightarrow> np_sum xs = fadd (Fin 0) (foldl fadd (Fin 0) xs)"
  by (simp add: np_sum_def pairwise_sum.simps [of xs])

subsection \<open>Masked assignment\<close>

text \<open>
  The masked assignments of \<^verbatim>\<open>loglikelihood\<close> and \<^verbatim>\<open>mod_residuals\<close> compute the
  array bin by bin.
\<close>

lemma mask_cvals:
  "length ydata = length ymodel \<Longrightarrow>
   mask_set (replicate (length ymodel) (Fin 0)) (map ne_zero ymodel)
     (map2 fsub (map2 fmul (mask_get (map ne_zero ymodel) ydata)
                   (map flog (mask_get (map ne_zero ymodel) ymodel)))
        (mask_get (map ne_zero ymodel) ymodel))
   = map2 cval ymodel ydata"
  by (induction ydata ymodel rule: list_induct2) (simp_all add: cval_def)

lemma loglikelihood_arrays_eq:
  "loglikelihood_arrays ymodel ydata =
     (if length ydata \<noteq> length ymodel then Inl IndexError
      else if isfinite (np_sum (map2 cval ymodel ydata)) then Inr (np_sum (map2 cval ymodel ydata))
      else Inr NInf)"
  by (simp add: loglikelihood_arrays_def Let_def mask_cvals)

lemma mask_resid:
  "length mcounts = length cts \<Longrightarrow>
   mask_set (replicate (length cts) (Fin 0)) (map ne_zero (map fsqrt cts))
     (map2 fdiv (map2 fsub (mask_get (map ne_zero (map fsqrt cts)) mcounts)
                   (mask_get (map ne_zero (map fsqrt cts)) cts))
        (mask_get (map ne_zero (map fsqrt cts)) (map fsqrt cts)))
   = map2 resid mcounts cts"
proof (induction mcounts cts rule: list_induct2)
  case Nil
  then show ?case by simp
next
  case (Cons m ms c cs)
  then show ?case by (simp add: resid_def del: map_map)
qed

lemma mod_residuals_arrays_eq:
  "mod_residuals_arrays mcounts cts =
     (if length mcounts \<noteq> length cts then Inl IndexError else Inr (map2 resid mcounts cts))"
  by (simp add: mod_residuals_arrays_def Let_def mask_resid del: map_map)

lemma fmul_NaN_right: "fmul x NaN = NaN"
  by (cases x) simp_all

lemma cval_neg: "r < 0 \<Longrightarrow> cval (Fin r) x = NaN"
  by (simp add: cval_def fsub_def fmul_NaN_right)

lemma cval_NaN: "cval NaN x = NaN"
  by (simp add: cval_def fsub_def fmul_NaN_right)

lemma map2_cval_neg:
  "length ymodel = length ydata \<Longrightarrow> Fin r \<in> set ymodel \<Longrightarrow> r < 0 \<Longrightarrow>
   NaN \<in> set (map2 cval ymodel ydata)"
proof (induction ymodel ydata rule: list_induct2)
  case Nil
  then show ?case by simp
next
  case (Cons m ms x xs)
  then show ?case by (auto simp: cval_neg)
qed

lemma map2_cval_NaN:
  "length ymodel = length ydata \<Longrightarrow> NaN \<in> set ymodel \<Longrightarrow>
   NaN \<in> set (map2 cval ymodel ydata)"
proof (induction ymodel ydata rule: list_induct2)
  case Nil
  then show ?case by simp
next
  case (Cons m ms x xs)
  then show ?case by (auto simp: cval_NaN)
qed

subsection \<open>Small float64 values and the range of the results\<close>

lemma double_half: "double (1 / 2)"
  using double_mantissa [of 1 "- 1"] by (simp add: powr_minus_divide)

lemma small_doubles:
  "double 1" "double (- 1)" "double 2" "double 3" "double (- 3)" "double 4" "double 6"
  "double (3 / 2)" "double (- 2)"
  using double_of_int [of 1] double_of_int [of "- 1"] double_of_int [of 2] double_of_int [of 3]
    double_of_int [of "- 3"] double_of_int [of 4] double_of_int [of 6]
    double_mantissa [of 3 "- 1"] double_of_int [of "- 2"]
  by (simp_all add: powr_minus_divide)

lemmas round_small = small_doubles [THEN round64_double] double_half [THEN round64_double]
  double_zero [THEN round64_double]

lemma fadd_range: "fadd x y = Fin r \<Longrightarrow> \<bar>r\<bar> < big"
  by (cases x; cases y) (auto dest: round64_range)

lemma np_sum_range: "np_sum xs = Fin r \<Longrightarrow> \<bar>r\<bar> < big"
  unfolding np_sum_def by (rule fadd_range)

lemma double_pow2:
  assumes "- 1074 \<le> k" "k \<le> 1023"
  shows "double (2 powr of_int k)"
proof (cases "k \<le> 971")
  case True
  with assms double_mantissa [of 1 k] show ?thesis by simp
next
  case False
  then have k: "971 \<le> k" by simp
  have "nat (k - 971) < 53" using assms(2) by simp
  then have "(2 :: int) ^ nat (k - 971) < 2 ^ 53" by (rule power_strict_increasing) simp
  then have "\<bar>(2 :: int) ^ nat (k - 971)\<bar> < 2 ^ 53" by simp
  then have "double (of_int (2 ^ nat (k - 971)) * 2 powr of_int 971)"
    by (rule double_mantissa) simp_all
  moreover have "(2 :: real) powr of_int k = 2 powr of_int 971 * of_int (2 ^ nat (k - 971))"
    using k by (rule pow2_split)
  ultimately show ?thesis by (simp only: mult.commute)
qed

lemma double_half_big: "double (2 powr of_int 1023)"
  by (rule double_pow2) simp_all

lemma half_round:
  assumes "\<bar>r\<bar> < big"
  shows "\<exists>y. round64 (- r / 2) = Fin y"
proof -
  have b: "big = 2 * 2 powr of_int 1023"
    using pow2_split [of 1023 1024] by (simp add: big_eq del: powr_numeral)
  from assms have "- (2 powr of_int 1023) \<le> - r / 2" "- r / 2 \<le> 2 powr of_int 1023"
    by (simp_all add: b)
  with double_half_big have "\<exists>y. round64 (- r / 2) = Fin y \<and> - (2 powr of_int 1023) \<le> y \<and> y \<le> 2 powr of_int 1023"
    by (intro round64_between) (simp_all add: double_minus)
  then show ?thesis by blast
qed

lemma loglikelihood_arrays_range:
  assumes "loglikelihood_arrays ymodel ydata = Inr v"
  shows "v = NInf \<or> (\<exists>r. v = Fin r \<and> \<bar>r\<bar> < big)"
proof (cases "np_sum (map2 cval ymodel ydata)")
  case (Fin r)
  then have "\<bar>r\<bar> < big" by (rule np_sum_range)
  with Fin assms show ?thesis by (auto simp: loglikelihood_arrays_eq split: if_splits)
next
  case PInf
  with assms show ?thesis by (auto simp: loglikelihood_arrays_eq split: if_splits)
next
  case NInf
  with assms show ?thesis by (auto simp: loglikelihood_arrays_eq split: if_splits)
next
  case NaN
  with assms show ?thesis by (auto simp: loglikelihood_arrays_eq split: if_splits)
qed

lemma half_neg_range:
  "v = NInf \<or> (\<exists>r. v = Fin r \<and> \<bar>r\<bar> < big) \<Longrightarrow>
   isfinite (fdiv (fneg v) (Fin 2)) \<or> fdiv (fneg v) (Fin 2) = PInf"
  using half_round by (cases v) fastforce+

subsection \<open>The one-bin instance\<close>

lemma model_chist_flat_one:
  "model_chist flat_library one_bin_fit [l, p] =
     (Inr [power10 l], one_bin_fit\<lparr>model := \<lparr>norm_pl = power10 l, phoindex = p\<rparr>\<rparr>)"
  by (simp add: model_chist_def flat_library_def one_bin_fit_def emid_def np_add_def
      set_model_pars_def round_small)

lemma counts_one_bin_fit: "counts (xspec one_bin_fit) = [Fin 1]"
  by (simp add: one_bin_fit_def)

lemma cash_via_arrays:
  "cash L self pars =
     (case model_chist L self pars of
        (Inl e, self') \<Rightarrow> (Inl e, self')
      | (Inr ymodel, self') \<Rightarrow> (cash_arrays ymodel (counts (xspec self')), self'))"
  by (simp add: cash_def loglikelihood_def cash_arrays_def split: prod.splits sum.splits)

lemma cash_flat_one:
  "fst (cash flat_library one_bin_fit [l, p]) = cash_arrays [power10 l] [Fin 1]"
  by (simp add: cash_via_arrays model_chist_flat_one counts_one_bin_fit)

lemma loglikelihood_flat_one:
  "fst (loglikelihood flat_library one_bin_fit [l, p]) = loglikelihood_arrays [power10 l] [Fin 1]"
  by (simp add: loglikelihood_def model_chist_flat_one counts_one_bin_fit)

subsection \<open>Residuals\<close>

lemma sqrt_nine: "sqrt 9 = 3"
  by (rule real_sqrt_unique) simp_all

lemma double_pos_min:
  assumes "double c" "0 < c"
  shows "2 powr (- 1074) \<le> c"
proof -
  from assms have "round_pos c = Fin c" by (simp add: double_pos)
  with assms(2) have c: "c = rval c" by (rule pdoubleD)
  define M where "M = rhe (c / ulp c)"
  from c have cM: "c = ulp c * of_int M" by (simp add: rval_def M_def)
  have "0 < ulp c * of_int M" using assms(2) cM by simp
  then have "0 < (of_int M :: real)" using ulp_pos [of c] by (simp add: zero_less_mult_iff)
  then have "1 \<le> M" by simp
  then have "(1 :: real) \<le> of_int M" by simp
  then have "ulp c * 1 \<le> ulp c * of_int M" using ulp_pos [of c] by (intro mult_left_mono) simp_all
  with cM have "ulp c \<le> c" by simp
  moreover have "(2 :: real) powr (- 1074) \<le> ulp c"
    unfolding ulp_def using expo_ge [of c] by (intro powr_mono) simp_all
  ultimately show ?thesis by linarith
qed

lemma fsqrt_ne_zero:
  assumes "double c" "0 < c"
  shows "ne_zero (fsqrt (Fin c))"
proof -
  have d: "double (2 powr of_int (- 537))" by (rule double_pow2) simp_all
  have "(2 powr of_int (- 537))\<^sup>2 = (2 :: real) powr (of_int (- 537) + of_int (- 537))"
    by (simp only: power2_eq_square powr_add)
  also have "\<dots> = 2 powr (- 1074)" by simp
  also have "\<dots> \<le> c" using assms by (rule double_pos_min)
  finally have "2 powr of_int (- 537) \<le> sqrt c" by (rule real_le_rsqrt)
  with d have "round64 (sqrt c) = PInf \<or> (\<exists>y. round64 (sqrt c) = Fin y \<and> 2 powr of_int (- 537) \<le> y)"
    by (rule round64_ge)
  moreover have "(0 :: real) < 2 powr of_int (- 537)" by simp
  ultimately show ?thesis using assms(2) by (auto simp: not_less) 
qed

lemma resid_Fin:
  assumes "double c" "0 \<le> c"
  shows "resid (Fin m) (Fin c) =
    (if c = 0 then Fin 0 else fdiv (fsub (Fin m) (Fin c)) (fsqrt (Fin c)))"
proof (cases "c = 0")
  case True
  then show ?thesis by (simp add: resid_def round_small)
next
  case False
  with assms have "ne_zero (fsqrt (Fin c))" by (intro fsqrt_ne_zero) simp_all
  with False show ?thesis by (simp add: resid_def)
qed

lemma double_nine: "double 9"
  using double_of_int [of 9] by simp

subsection \<open>Midpoints\<close>

lemma double_twice_pos:
  assumes "double x" "0 < x" "x < 2 powr of_int 1023"
  shows "double (2 * x)"
proof -
  from assms have rp: "round_pos x = Fin x" by (simp add: double_pos)
  with assms(2) have c: "x = rval x" by (rule pdoubleD)
  define M where "M = rhe (x / ulp x)"
  from c have xM: "x = of_int M * ulp x" by (simp add: rval_def M_def mult.commute)
  have x2: "0 < 2 * x" using assms(2) by simp
  have lo: "expo x \<le> expo (2 * x)" using assms(2) by (intro expo_mono) simp_all
  have "x < 2 powr of_int (expo x + 1)" using assms(2) by (rule expo_upper)
  moreover have "(2 :: real) powr of_int (expo x + 2) = 2 * 2 powr of_int (expo x + 1)"
    using pow2_split [of "expo x + 1" "expo x + 2"] by simp
  ultimately have up2: "2 * x < 2 powr of_int (expo x + 2)" by simp
  have hi: "expo (2 * x) \<le> expo x + 1"
  proof (rule ccontr)
    assume "\<not> expo (2 * x) \<le> expo x + 1"
    then have g: "expo x + 2 \<le> expo (2 * x)" by simp
    with expo_ge [of x] have "- 1022 < expo (2 * x)" by simp
    with x2 have "2 powr of_int (expo (2 * x)) \<le> 2 * x" by (rule expo_lower)
    moreover have "(2 :: real) powr of_int (expo x + 2) \<le> 2 powr of_int (expo (2 * x))"
      using g by (intro powr_mono) simp_all
    ultimately show False using up2 by linarith
  qed
  have "\<exists>N. 2 * x = of_int N * ulp (2 * x)"
  proof (cases "expo (2 * x) = expo x")
    case True
    then have "ulp (2 * x) = ulp x" by (simp add: ulp_def)
    with xM have "2 * x = of_int (2 * M) * ulp (2 * x)" by simp
    then show ?thesis ..
  next
    case False
    with lo hi have "expo (2 * x) = expo x + 1" by simp
    then have "ulp (2 * x) = 2 powr of_int (expo x - 52 + 1)" by (simp add: ulp_def)
    also have "\<dots> = ulp x * 2"
      using pow2_split [of "expo x - 52" "expo x - 52 + 1"] by (simp add: ulp_def)
    finally have "ulp (2 * x) = 2 * ulp x" by simp
    with xM have "2 * x = of_int M * ulp (2 * x)" by simp
    then show ?thesis ..
  qed
  then obtain N where N: "2 * x = of_int N * ulp (2 * x)" ..
  then have "2 * x / ulp (2 * x) = of_int N \<or> ulp (2 * x) = 0"
    by (metis nonzero_mult_div_cancel_right)
  then have "2 * x / ulp (2 * x) = of_int N" using ulp_pos [of "2 * x"] by simp
  then have "rhe (2 * x / ulp (2 * x)) = N" by (simp only: rhe_of_int)
  with N have r: "rval (2 * x) = 2 * x" by (simp add: rval_def mult.commute)
  have "big = 2 * 2 powr of_int 1023"
    using pow2_split [of 1023 1024] by (simp add: big_eq del: powr_numeral)
  with assms(3) have "2 * x < big" by simp
  with r x2 show ?thesis by (simp add: double_def round64_def round_pos_def)
qed

lemma double_twice:
  assumes "double x" "\<bar>x\<bar> < 2 powr of_int 1023"
  shows "double (2 * x)"
proof -
  consider "x < 0" | "x = 0" | "0 < x" by linarith
  then show ?thesis
  proof cases
    case 1
    with assms have "double (2 * (- x))" by (intro double_twice_pos) (simp_all add: double_minus)
    then have "double (- (2 * x))" by simp
    then show ?thesis by (simp only: double_minus)
  next
    case 2
    then show ?thesis by (simp add: double_zero)
  next
    case 3
    with assms show ?thesis by (intro double_twice_pos) simp_all
  qed
qed

lemma midpoint_between:
  assumes "double l" "double h" "l \<le> h" "\<bar>l\<bar> < 2 powr of_int 1023" "\<bar>h\<bar> < 2 powr of_int 1023"
  shows "\<exists>m. fmul (Fin 0.5) (fadd (Fin l) (Fin h)) = Fin m \<and> l \<le> m \<and> m \<le> h \<and>
           (\<forall>d. double d \<and> l < d \<and> 2 * d \<le> l + h \<longrightarrow> l < m) \<and>
           (\<forall>d. double d \<and> d < h \<and> l + h \<le> 2 * d \<longrightarrow> m < h)"
proof -
  have "double (2 * l)" "double (2 * h)" using assms by (simp_all add: double_twice)
  moreover have "2 * l \<le> l + h" "l + h \<le> 2 * h" using assms(3) by simp_all
  ultimately obtain s where s: "round64 (l + h) = Fin s" "2 * l \<le> s" "s \<le> 2 * h"
    using round64_between by blast
  then have "l \<le> 0.5 * s" "0.5 * s \<le> h" by simp_all
  with assms(1,2) obtain m where m: "round64 (0.5 * s) = Fin m" "l \<le> m" "m \<le> h"
    using round64_between by blast
  have lo: "l < m" if d: "double d" "l < d" "2 * d \<le> l + h" for d
  proof -
    from d(2,3) assms(3) have "d \<le> h" by linarith
    with d(2) assms(4,5) have "\<bar>d\<bar> < 2 powr of_int 1023" by linarith
    with d(1) have "double (2 * d)" by (rule double_twice)
    from round64_ge [OF this d(3)] s(1) have "2 * d \<le> s" by auto
    then have "d \<le> 0.5 * s" by simp
    from round64_ge [OF d(1) this] m(1) have "d \<le> m" by auto
    with d(2) show ?thesis by simp
  qed
  have hi: "m < h" if d: "double d" "d < h" "l + h \<le> 2 * d" for d
  proof -
    from d(2,3) assms(3) have "l \<le> d" by linarith
    with d(2) assms(4,5) have "\<bar>d\<bar> < 2 powr of_int 1023" by linarith
    with d(1) have "double (2 * d)" by (rule double_twice)
    from round64_le [OF this d(3)] s(1) have "s \<le> 2 * d" by auto
    then have "0.5 * s \<le> d" by simp
    from round64_le [OF d(1) this] m(1) have "m \<le> d" by auto
    with d(2) show ?thesis by simp
  qed
  from s(1) m have "fmul (Fin 0.5) (fadd (Fin l) (Fin h)) = Fin m \<and> l \<le> m \<and> m \<le> h" by simp
  with lo hi show ?thesis by blast
qed

lemma round64_tie: "round64 (2 + 1 / 2 ^ 52) = Fin 2"
proof -
  define x :: real where "x = 2 + 1 / 2 ^ 52"
  have x: "0 < x" by (simp add: x_def)
  have "expo x = 1" using x by (rule expo_eq) (simp_all add: x_def)
  then have u: "ulp x = 1 / 2 ^ 51" by (simp add: ulp_def powr_minus_divide)
  have q: "x / ulp x = 4503599627370496 + 1 / 2" unfolding u by (simp add: x_def)
  have "rhe (4503599627370496 + 1 / 2) = 4503599627370496" by (simp add: rhe_def Let_def)
  with q have "rval x = 1 / 2 ^ 51 * of_int 4503599627370496" by (simp only: rval_def u)
  then have "rval x = 2" by simp
  moreover have "(2 :: real) < big" by (simp add: big_def)
  ultimately have "round64 x = Fin 2" using x by (simp add: round64_def round_pos_def)
  then show ?thesis by (simp only: x_def)
qed

lemma double_next_one: "double (1 + 1 / 2 ^ 52)"
proof -
  have "double (of_int 4503599627370497 * 2 powr of_int (- 52))"
    by (rule double_mantissa) simp_all
  then show ?thesis by (simp add: powr_minus_divide)
qed

lemma double_high_edge: "double (3 * 2 powr of_int 1022)"
proof -
  have "double (of_int (3 * 2 ^ 51) * 2 powr of_int 971)" by (rule double_mantissa) simp_all
  moreover have "(2 :: real) powr of_int 1022 = 2 powr of_int 971 * of_int (2 ^ nat (1022 - 971))"
    by (rule pow2_split) simp
  ultimately show ?thesis by (simp del: powr_numeral)
qed

lemma round64_sum_overflow: "round64 (2 powr of_int 1023 + 3 * 2 powr of_int 1022) = PInf"
proof -
  have a: "(2 :: real) powr of_int 1023 = 2 * 2 powr of_int 1022"
    using pow2_split [of 1022 1023] by (simp del: powr_numeral)
  have b: "big = 2 * 2 powr of_int 1023"
    using pow2_split [of 1023 1024] by (simp add: big_eq del: powr_numeral)
  have "big \<le> 2 powr of_int 1023 + 3 * 2 powr of_int 1022"
    by (simp only: b a) simp
  then show ?thesis by (rule round64_overflow)
qed

subsection \<open>The amplitude\<close>

lemma power10_underflow: "power10 (Fin (- 324)) = Fin 0"
proof -
  have "(10 :: real) powr (- 324) < 2 powr (- 1075)" by (simp add: powr_minus_divide)
  then have "round64 (10 powr (- 324)) = Fin 0" by (intro round64_underflow) simp_all
  then show ?thesis by simp
qed

lemma round64_tiny:
  assumes "0 \<le> x" "x \<le> 2 powr (- 1075)"
  shows "round64 x = Fin 0"
proof (cases "x = 0")
  case True
  then show ?thesis by (simp add: round64_def round_pos_zero)
next
  case False
  with assms have x: "0 < x" by simp
  have "(2 :: real) powr (- 1075) < 2 powr (- 1022)" by (intro powr_less_mono) simp_all
  with assms have "x < 2 powr (- 1022)" by linarith
  with x have e: "expo x = - 1022" by (rule expo_small)
  then have u: "ulp x = 2 powr (- 1074)" by (simp add: ulp_def del: powr_numeral)
  have "(2 :: real) powr (- 1075 + 1) = 2 powr (- 1075) * 2 powr 1" by (rule powr_add)
  then have "(2 :: real) powr (- 1074) = 2 powr (- 1075) * 2" by simp
  with assms(2) have "x \<le> ulp x * (1 / 2)" by (simp only: u)
  then have "x / ulp x \<le> 1 / 2" using ulp_pos [of x] by (simp add: pos_divide_le_eq mult.commute)
  moreover have "0 \<le> x / ulp x" using x ulp_pos [of x] by simp
  moreover define q where "q = x / ulp x"
  ultimately have q: "q \<le> 1 / 2" "0 \<le> q" by simp_all
  then have "\<lfloor>q\<rfloor> = 0" by (simp add: floor_eq_iff)
  with q have "rhe q = 0" by (simp add: rhe_def Let_def)
  then have "rhe (x / ulp x) = 0" by (simp only: q_def)
  then have "rval x = 0" by (simp add: rval_def)
  with x big_pos show ?thesis by (simp add: round64_def round_pos_def)
qed

lemma round64_above_tiny:
  assumes "2 powr (- 1075) < x" "x < 2 powr (- 1074)"
  shows "round64 x = Fin (2 powr (- 1074))"
proof -
  have "(0 :: real) < 2 powr (- 1075)" by (simp only: powr_gt_zero)
  with assms(1) have x: "0 < x" by linarith
  have "(2 :: real) powr (- 1074) < 2 powr (- 1022)" by (intro powr_less_mono) simp_all
  with assms have "x < 2 powr (- 1022)" by linarith
  with x have e: "expo x = - 1022" by (rule expo_small)
  then have u: "ulp x = 2 powr (- 1074)" by (simp add: ulp_def del: powr_numeral)
  have "(2 :: real) powr (- 1075 + 1) = 2 powr (- 1075) * 2 powr 1" by (rule powr_add)
  then have "(2 :: real) powr (- 1074) = 2 powr (- 1075) * 2" by simp
  with assms(1) have "ulp x * (1 / 2) < x" by (simp only: u)
  then have "1 / 2 < x / ulp x" using ulp_pos [of x] by (simp add: pos_less_divide_eq mult.commute)
  moreover from assms(2) have "x < ulp x * 1" by (simp only: u mult_1_right)
  then have "x / ulp x < 1" using ulp_pos [of x] by (simp add: pos_divide_less_eq mult.commute)
  moreover define q where "q = x / ulp x"
  ultimately have q: "1 / 2 < q" "q < 1" by simp_all
  then have "\<lfloor>q\<rfloor> = 0" by (simp add: floor_eq_iff)
  with q have "rhe q = 1" by (simp add: rhe_def Let_def)
  then have "rhe (x / ulp x) = 1" by (simp only: q_def)
  then have r: "rval x = 2 powr (- 1074)" by (simp add: rval_def u del: powr_numeral)
  have "(2 :: real) powr (- 1074) < 2 powr 1024" by (intro powr_less_mono) simp_all
  then have "\<not> big \<le> rval x" by (simp add: r big_def del: powr_numeral)
  with x r show ?thesis by (simp add: round64_def round_pos_def del: powr_numeral)
qed

lemma round64_pos_iff:
  assumes "0 \<le> x"
  shows "gt_zero (round64 x) \<longleftrightarrow> 2 powr (- 1075) < x"
proof (cases "2 powr (- 1075) < x")
  case True
  have "gt_zero (round64 x)"
  proof (cases "x < 2 powr (- 1074)")
    case True
    with \<open>2 powr (- 1075) < x\<close> have "round64 x = Fin (2 powr (- 1074))"
      by (rule round64_above_tiny)
    then show ?thesis by (simp del: powr_numeral)
  next
    case False
    then have le: "2 powr of_int (- 1074) \<le> x" by simp
    have "double (2 powr of_int (- 1074))" by (rule double_pow2) simp_all
    from round64_ge [OF this le] show ?thesis
    proof
      assume "round64 x = PInf"
      then show ?thesis by simp
    next
      assume "\<exists>y. round64 x = Fin y \<and> 2 powr of_int (- 1074) \<le> y"
      then obtain y where y: "round64 x = Fin y" "2 powr of_int (- 1074) \<le> y" by blast
      have "(0 :: real) < 2 powr of_int (- 1074)" by (simp only: powr_gt_zero)
      with y(2) have "0 < y" by linarith
      with y(1) show ?thesis by simp
    qed
  qed
  with True show ?thesis by simp
next
  case False
  with assms have "round64 x = Fin 0" by (intro round64_tiny) simp_all
  with False show ?thesis by simp
qed

lemma power10_pos_iff: "gt_zero (power10 (Fin l)) \<longleftrightarrow> 2 powr (- 1075) < 10 powr l"
  using round64_pos_iff [of "10 powr l"] by simp

lemma power10_nonneg: "power10 (Fin l) = PInf \<or> (\<exists>a. power10 (Fin l) = Fin a \<and> 0 \<le> a)"
  using round64_ge [OF double_zero, of "10 powr l"] by simp

lemma power10_pos:
  assumes "- 323 \<le> l"
  shows "gt_zero (power10 (Fin l))"
proof -
  have d: "double (2 powr of_int (- 1074))" by (rule double_pow2) simp_all
  have "(2 :: real) powr of_int (- 1074) \<le> 10 powr (- 323)" by (simp add: powr_minus_divide)
  also have "\<dots> \<le> 10 powr l" using assms by (intro powr_mono) simp_all
  finally have "2 powr of_int (- 1074) \<le> 10 powr l" .
  with d have "round64 (10 powr l) = PInf \<or>
      (\<exists>y. round64 (10 powr l) = Fin y \<and> 2 powr of_int (- 1074) \<le> y)"
    by (rule round64_ge)
  then show ?thesis
  proof
    assume "round64 (10 powr l) = PInf"
    then show ?thesis by simp
  next
    assume "\<exists>y. round64 (10 powr l) = Fin y \<and> 2 powr of_int (- 1074) \<le> y"
    then obtain y where y: "round64 (10 powr l) = Fin y" "2 powr of_int (- 1074) \<le> y" by blast
    have "(0 :: real) < 2 powr of_int (- 1074)" by (simp only: powr_gt_zero)
    with y(2) have "0 < y" by linarith
    with y(1) show ?thesis by simp
  qed
qed

lemma Powerlaw_overwrite:
  "(m :: Powerlaw)\<lparr>norm_pl := a, phoindex := b\<rparr> = \<lparr>norm_pl = a, phoindex = b\<rparr>"
  by (cases m) simp

lemma model_chist_pars:
  "model_chist L self [l, p] =
     (case bin_counts L self of
        (elo, ehi, cts, cts_err) \<Rightarrow>
          (case emid elo ehi of
             Inl e \<Rightarrow> (Inl e, self)
           | Inr em \<Rightarrow>
               (Inr (apply_resp L (self\<lparr>model := \<lparr>norm_pl = power10 l, phoindex = p\<rparr>\<rparr>)
                      (calculate L \<lparr>norm_pl = power10 l, phoindex = p\<rparr> elo ehi)),
                self\<lparr>model := \<lparr>norm_pl = power10 l, phoindex = p\<rparr>\<rparr>)))"
  by (simp add: set_model_pars_def model_chist_def Powerlaw_overwrite
      split: prod.splits sum.splits)

subsection \<open>The object across evaluations\<close>











subsection \<open>The terms of the sum\<close>

lemma cval_bin_term: "cval m x = bin_term m x"
  by (cases m) (auto simp: cval_def bin_term_def fsub_def fmul_NaN_right)

lemma ln_16_ge: "2 \<le> ln (16 :: real)"
proof -
  have "exp (1 + 1) = exp 1 * exp (1 :: real)" by (rule exp_add)
  also have "\<dots> \<le> 3 * 3" using exp_le by (intro mult_mono) simp_all
  finally have "exp 2 \<le> (16 :: real)" by simp
  then show ?thesis by (simp add: ln_ge_iff)
qed

lemma cval_overflow: "cval (Fin 16) (Fin (2 powr of_int 1023)) = PInf"
proof -
  have big2: "big = 2 * 2 powr of_int 1023"
    using pow2_split [of 1023 1024] by (simp add: big_eq del: powr_numeral)
  have X: "(0 :: real) < 2 powr of_int 1023" by (simp only: powr_gt_zero)
  have "round64 (ln 16) = PInf \<or> (\<exists>y. round64 (ln 16) = Fin y \<and> 2 \<le> y)"
    using small_doubles(3) ln_16_ge by (rule round64_ge)
  then have "fmul (Fin (2 powr of_int 1023)) (flog (Fin 16)) = PInf"
  proof
    assume "round64 (ln 16) = PInf"
    then show ?thesis using X by (simp add: inf_times_def del: powr_numeral)
  next
    assume "\<exists>y. round64 (ln 16) = Fin y \<and> 2 \<le> y"
    then obtain y where y: "round64 (ln 16) = Fin y" "2 \<le> y" by blast
    from y(2) X have "2 powr of_int 1023 * 2 \<le> 2 powr of_int 1023 * y"
      by (intro mult_left_mono) simp_all
    then have "big \<le> 2 powr of_int 1023 * y" by (simp only: big2 mult.commute)
    then have "round64 (2 powr of_int 1023 * y) = PInf" by (rule round64_overflow)
    with y(1) show ?thesis by (simp del: powr_numeral)
  qed
  then show ?thesis by (simp add: cval_def fsub_def del: powr_numeral flog.simps)
qed

lemma loglikelihood_overflow:
  "loglikelihood_arrays [Fin 16] [Fin (2 powr of_int 1023)] = Inr NInf"
  using cval_overflow
  by (simp add: loglikelihood_arrays_eq np_sum_short del: powr_numeral)

lemma bnd_Fin: "bnd c (Fin r) = (\<bar>r\<bar> \<le> c)"
  by (simp add: bnd_def)

lemma bndE: "bnd c v \<Longrightarrow> (\<And>r. v = Fin r \<Longrightarrow> \<bar>r\<bar> \<le> c \<Longrightarrow> P) \<Longrightarrow> P"
  by (cases v) (simp_all add: bnd_def)

lemma round64_bnd:
  assumes "double c" "\<bar>x\<bar> \<le> c"
  shows "bnd c (round64 x)"
proof -
  from assms have "double (- c)" "- c \<le> x" "x \<le> c" by (simp_all add: double_minus)
  with assms(1) obtain y where "round64 x = Fin y" "- c \<le> y" "y \<le> c"
    using round64_between by blast
  then show ?thesis by (simp add: bnd_Fin)
qed

lemma fadd_bnd:
  assumes "bnd a x" "bnd b y" "double (a + b)"
  shows "bnd (a + b) (fadd x y)"
proof -
  from assms(1) obtain r where r: "x = Fin r" "\<bar>r\<bar> \<le> a" by (rule bndE)
  from assms(2) obtain s where s: "y = Fin s" "\<bar>s\<bar> \<le> b" by (rule bndE)
  from r s have "\<bar>r + s\<bar> \<le> a + b" by simp
  with assms(3) have "bnd (a + b) (round64 (r + s))" by (rule round64_bnd)
  with r s show ?thesis by simp
qed

lemma double_count:
  assumes "n < 2 ^ 53" "- 1074 \<le> j" "j \<le> 971"
  shows "double (of_nat n * 2 powr of_int j)"
proof -
  have "\<bar>int n\<bar> < 2 ^ 53" using assms(1) by simp
  then have "double (of_int (int n) * 2 powr of_int j)" using assms(2,3) by (rule double_mantissa)
  then show ?thesis by simp
qed

lemma sum_of_bnd:
  assumes "sum_of A v" "\<forall>x\<in>#A. bnd (2 powr of_int j) x" "size A < 2 ^ 53" "- 1074 \<le> j" "j \<le> 971"
  shows "bnd (of_nat (size A) * 2 powr of_int j) v"
  using assms(1,2,3)
proof (induction rule: sum_of.induct)
  case sum_of_empty
  then show ?case by (simp add: bnd_Fin)
next
  case (sum_of_single x)
  then show ?case by simp
next
  case (sum_of_add A a B b)
  then have a: "bnd (of_nat (size A) * 2 powr of_int j) a"
    and b: "bnd (of_nat (size B) * 2 powr of_int j) b" by simp_all
  from sum_of_add.prems(2) have "size A + size B < 2 ^ 53" by simp
  then have "double (of_nat (size A + size B) * 2 powr of_int j)"
    using assms(4,5) by (rule double_count)
  then have "double (of_nat (size A) * 2 powr of_int j + of_nat (size B) * 2 powr of_int j)"
    by (simp add: distrib_right)
  with a b have "bnd (of_nat (size A) * 2 powr of_int j + of_nat (size B) * 2 powr of_int j) (fadd a b)"
    by (rule fadd_bnd)
  then show ?case by (simp add: distrib_right)
qed

subsection \<open>The rounding error\<close>

text \<open>
  Rounding moves a value of magnitude at most \<open>2 powr k\<close> by at most \<open>2 powr (k - 53)\<close>,
  and the rounded value is a float64 value.
\<close>

lemma rhe_err: "\<bar>of_int (rhe q) - q\<bar> \<le> 1 / 2"
proof -
  have "of_int \<lfloor>q\<rfloor> \<le> q" "q < of_int \<lfloor>q\<rfloor> + 1" by linarith+
  then show ?thesis by (auto simp: rhe_def Let_def)
qed

lemma rval_err: "\<bar>rval x - x\<bar> \<le> ulp x / 2"
proof -
  define q where "q = x / ulp x"
  have "ulp x * q = x" using ulp_pos [of x] by (simp add: q_def)
  then have "rval x - x = ulp x * of_int (rhe q) - ulp x * q" by (simp add: rval_def q_def)
  also have "\<dots> = ulp x * (of_int (rhe q) - q)" by (simp add: right_diff_distrib)
  finally have "\<bar>rval x - x\<bar> = ulp x * \<bar>of_int (rhe q) - q\<bar>"
    using ulp_pos [of x] by (simp add: abs_mult)
  also have "\<dots> \<le> ulp x * (1 / 2)"
    using ulp_pos [of x] rhe_err [of q] by (intro mult_left_mono) simp_all
  finally show ?thesis by simp
qed

lemma expo_pow2: "- 1022 \<le> k \<Longrightarrow> expo (2 powr of_int k) = k"
  by (rule expo_eq) simp_all

lemma ulp_le_pow:
  assumes "0 < x" "x \<le> 2 powr of_int k" "- 1022 \<le> k"
  shows "ulp x \<le> 2 powr of_int (k - 52)"
proof -
  have "expo x \<le> expo (2 powr of_int k)" using assms(1,2) by (rule expo_mono)
  with assms(3) have "expo x \<le> k" by (simp add: expo_pow2)
  then show ?thesis unfolding ulp_def by (intro powr_mono) simp_all
qed

lemma round_pos_err:
  assumes "0 \<le> x" "x \<le> 2 powr of_int k" "- 1022 \<le> k" "k \<le> 1023"
  shows "\<exists>y. round_pos x = Fin y \<and> \<bar>y - x\<bar> \<le> 2 powr of_int (k - 53) \<and> 0 \<le> y \<and> y \<le> 2 powr of_int k"
proof (cases "x = 0")
  case True
  then show ?thesis by (simp add: round_pos_zero)
next
  case False
  with assms(1) have x: "0 < x" by simp
  have "double (2 powr of_int k)" using assms(3,4) by (intro double_pow2) simp_all
  then have "round_pos (2 powr of_int k) = Fin (2 powr of_int k)" by (intro double_pos) simp_all
  with x assms(2) have r: "round_pos x = Fin (rval x) \<and> rval x \<le> 2 powr of_int k"
    by (rule round_pos_upper)
  have "(2 :: real) powr of_int (k - 52) = 2 powr of_int (k - 53) * 2"
    using pow2_split [of "k - 53" "k - 52"] by simp
  moreover have "ulp x \<le> 2 powr of_int (k - 52)" using x assms(2,3) by (rule ulp_le_pow)
  ultimately have "ulp x / 2 \<le> 2 powr of_int (k - 53)" by simp
  with rval_err [of x] have "\<bar>rval x - x\<bar> \<le> 2 powr of_int (k - 53)" by linarith
  with r rval_nonneg [of x] x show ?thesis by simp
qed

lemma round64_err:
  assumes "\<bar>x\<bar> \<le> 2 powr of_int k" "- 1022 \<le> k" "k \<le> 1023"
  shows "\<exists>y. round64 x = Fin y \<and> \<bar>y - x\<bar> \<le> 2 powr of_int (k - 53) \<and> \<bar>y\<bar> \<le> 2 powr of_int k"
proof (cases "x < 0")
  case True
  with assms have "0 \<le> - x" "- x \<le> 2 powr of_int k" by simp_all
  from round_pos_err [OF this assms(2,3)] obtain y where
    "round_pos (- x) = Fin y" "\<bar>y - - x\<bar> \<le> 2 powr of_int (k - 53)" "0 \<le> y" "y \<le> 2 powr of_int k"
    by blast
  with True show ?thesis by (simp add: round64_def abs_minus_commute add.commute)
next
  case False
  with assms have "0 \<le> x" "x \<le> 2 powr of_int k" by simp_all
  from round_pos_err [OF this assms(2,3)] False show ?thesis
    by (auto simp: round64_def)
qed

lemma rval_double:
  assumes "0 < x" "rval x < big"
  shows "double (rval x)"
proof -
  define M where "M = rhe (x / ulp x)"
  have rv: "rval x = of_int M * 2 powr of_int (expo x - 52)"
    by (simp add: rval_def M_def ulp_def mult.commute)
  have e: "expo x \<le> 1023"
  proof (rule ccontr)
    assume "\<not> expo x \<le> 1023"
    then have g: "1024 \<le> expo x" by simp
    then have "- 1022 < expo x" by simp
    with assms(1) have "2 powr of_int (expo x) \<le> rval x" by (rule rval_ge_pow)
    moreover have "(2 :: real) powr of_int 1024 \<le> 2 powr of_int (expo x)"
      using g by (intro powr_mono) simp_all
    ultimately have "big \<le> rval x" by (simp only: big_eq)
    with assms(2) show False by simp
  qed
  have "0 \<le> rval x" using assms(1) by (intro rval_nonneg) simp
  then have "0 \<le> of_int M * ulp x" by (simp add: rval_def M_def mult.commute)
  then have "0 \<le> (of_int M :: real)" using ulp_pos [of x] by (simp add: zero_le_mult_iff)
  then have M0: "0 \<le> M" by simp
  have p: "2 powr of_int (expo x + 1) = of_int (2 ^ 53) * ulp x"
    using pow_expo_ulp [of 1 x] by simp
  have "x < 2 powr of_int (expo x + 1)" using assms(1) by (rule expo_upper)
  with p have "x \<le> of_int (2 ^ 53) * ulp x" by simp
  then have "rval x \<le> of_int (2 ^ 53) * ulp x" by (rule rval_le)
  then have "of_int M * ulp x \<le> of_int (2 ^ 53) * ulp x" by (simp add: rval_def M_def mult.commute)
  then have "(of_int M :: real) \<le> of_int (2 ^ 53)" using ulp_pos [of x] by (simp only: mult_le_cancel_right_pos)
  then have M1: "M \<le> 2 ^ 53" by (simp only: of_int_le_iff)
  show ?thesis
  proof (cases "M = 2 ^ 53")
    case True
    with p have r2: "rval x = 2 powr of_int (expo x + 1)" by (simp add: rval_def M_def mult.commute)
    have "expo x + 1 \<le> 1023"
    proof (rule ccontr)
      assume "\<not> expo x + 1 \<le> 1023"
      then have "(2 :: real) powr of_int 1024 \<le> 2 powr of_int (expo x + 1)"
        by (intro powr_mono) simp_all
      with r2 have "big \<le> rval x" by (simp only: big_eq)
      with assms(2) show False by simp
    qed
    moreover have "- 1074 \<le> expo x + 1" using expo_ge [of x] by simp
    ultimately have "double (2 powr of_int (expo x + 1))" by (intro double_pow2)
    with r2 show ?thesis by simp
  next
    case False
    with M0 M1 have "\<bar>M\<bar> < 2 ^ 53" by simp
    moreover have "- 1074 \<le> expo x - 52" using expo_ge [of x] by simp
    moreover have "expo x - 52 \<le> 971" using e by simp
    ultimately have "double (of_int M * 2 powr of_int (expo x - 52))" by (rule double_mantissa)
    with rv show ?thesis by simp
  qed
qed

lemma round64_is_double:
  assumes "round64 x = Fin y"
  shows "double y"
proof -
  have pos: "double y" if "0 \<le> x" "round_pos x = Fin y" for x y
  proof (cases "x = 0")
    case True
    with that show ?thesis by (simp add: round_pos_zero double_zero)
  next
    case False
    with that have "0 < x" "rval x < big" "y = rval x"
      by (auto simp: round_pos_def split: if_splits)
    then show ?thesis by (simp add: rval_double)
  qed
  show ?thesis
  proof (cases "x < 0")
    case True
    with assms have "fneg (round_pos (- x)) = Fin y" by (simp add: round64_def)
    then have "round_pos (- x) = Fin (- y)" by (cases "round_pos (- x)") simp_all
    with True have "double (- y)" by (intro pos [of "- x"]) simp_all
    then show ?thesis by (simp only: double_minus)
  next
    case False
    with assms show ?thesis by (intro pos [of x]) (simp_all add: round64_def)
  qed
qed

subsection \<open>The error of a sum\<close>

text \<open>
  Whatever the order of the additions, the float64 sum of \<open>n\<close> float64 values of magnitude
  at most \<open>2 powr t\<close>, with \<open>n\<close> at most \<open>2 ^ J\<close>, differs from their real sum by at most
  \<open>(2 * n - 1) * 2 powr (t + J - 53)\<close>: an addition of zero is exact, and there are
  fewer than \<open>n\<close> others.
\<close>

lemma sum_of_err:
  assumes "sum_of A v"
    and "\<forall>x\<in>#A. \<exists>r. x = Fin r \<and> double r \<and> \<bar>r\<bar> \<le> 2 powr of_int t"
    and "size A \<le> 2 ^ J" "J \<le> 52" "- 1022 \<le> t" "t + int J \<le> 971"
  shows "\<exists>f. v = Fin f \<and> double f \<and>
           \<bar>f - (\<Sum>x\<in>#A. fval x)\<bar> \<le> of_nat (2 * size A - 1) * 2 powr of_int (t + int J - 53)"
  using assms(1,2,3)
proof (induction rule: sum_of.induct)
  case sum_of_empty
  then show ?case by (simp add: double_zero)
next
  case (sum_of_single x)
  then obtain r where "x = Fin r" "double r" by auto
  then show ?case by simp
next
  case (sum_of_add A a B b)
  define d :: real where "d = 2 powr of_int (t + int J - 53)"
  have d: "0 \<le> d" by (simp add: d_def)
  from sum_of_add obtain fa where fa: "a = Fin fa" "double fa"
    "\<bar>fa - (\<Sum>x\<in>#A. fval x)\<bar> \<le> of_nat (2 * size A - 1) * d"
    unfolding d_def by auto
  from sum_of_add obtain fb where fb: "b = Fin fb" "double fb"
    "\<bar>fb - (\<Sum>x\<in>#B. fval x)\<bar> \<le> of_nat (2 * size B - 1) * d"
    unfolding d_def by auto
  consider "A = {#}" | "B = {#}" | "A \<noteq> {#}" "B \<noteq> {#}" by blast
  then have "\<exists>f. fadd a b = Fin f \<and> double f \<and>
      \<bar>f - (\<Sum>x\<in>#A + B. fval x)\<bar> \<le> of_nat (2 * size (A + B) - 1) * d"
  proof cases
    case 1
    with fa(3) have "fa = 0" by simp
    with fa(1) fb(1,2) have "fadd a b = Fin fb" by (simp add: round64_double)
    with fb 1 show ?thesis by simp
  next
    case 2
    with fb(3) have "fb = 0" by simp
    with fb(1) fa(1,2) have "fadd a b = Fin fa" by (simp add: round64_double)
    with fa 2 show ?thesis by simp
  next
    case 3
    then have sA: "1 \<le> size A" and sB: "1 \<le> size B"
      by (simp_all add: Suc_le_eq nonempty_has_size)
    have lt: "size A + size B < 2 ^ 53"
    proof -
      have "(2 :: nat) ^ J \<le> 2 ^ 52" using assms(4) by (intro power_increasing) simp_all
      with sum_of_add.prems(2) show ?thesis by simp
    qed
    have t: "- 1074 \<le> t" "t \<le> 971" using assms(5,6) by simp_all
    have bAB: "\<forall>x\<in>#A + B. bnd (2 powr of_int t) x"
    proof
      fix x
      assume "x \<in># A + B"
      with sum_of_add.prems(1) obtain r where "x = Fin r" "\<bar>r\<bar> \<le> 2 powr of_int t" by blast
      then show "bnd (2 powr of_int t) x" by (simp add: bnd_Fin)
    qed
    have "bnd (of_nat (size A) * 2 powr of_int t) a"
      using sum_of_add.hyps(1) bAB lt t by (intro sum_of_bnd) simp_all
    with fa(1) have ba: "\<bar>fa\<bar> \<le> of_nat (size A) * 2 powr of_int t" by (simp add: bnd_Fin)
    have "bnd (of_nat (size B) * 2 powr of_int t) b"
      using sum_of_add.hyps(2) bAB lt t by (intro sum_of_bnd) simp_all
    with fb(1) have bb: "\<bar>fb\<bar> \<le> of_nat (size B) * 2 powr of_int t" by (simp add: bnd_Fin)
    have "real (size A + size B) \<le> real (2 ^ J)"
      using sum_of_add.prems(2) by (simp only: of_nat_le_iff size_union)
    then have "real (size A + size B) * 2 powr of_int t \<le> real (2 ^ J) * 2 powr of_int t"
      by (intro mult_right_mono) simp_all
    also have "\<dots> = 2 powr of_int (t + int J)"
      using pow2_split [of t "t + int J"] by (simp add: mult.commute)
    finally have "real (size A + size B) * 2 powr of_int t \<le> 2 powr of_int (t + int J)" .
    moreover from ba bb have "\<bar>fa + fb\<bar> \<le> real (size A + size B) * 2 powr of_int t"
      by (simp add: distrib_right)
    ultimately have "\<bar>fa + fb\<bar> \<le> 2 powr of_int (t + int J)" by linarith
    moreover have "- 1022 \<le> t + int J" "t + int J \<le> 1023" using assms(5,6) by simp_all
    ultimately obtain y where y: "round64 (fa + fb) = Fin y" "\<bar>y - (fa + fb)\<bar> \<le> d"
      unfolding d_def using round64_err by blast
    from y(1) have dy: "double y" by (rule round64_is_double)
    have ra: "real (2 * size A - 1) = 2 * real (size A) - 1" using sA by simp
    have rb: "real (2 * size B - 1) = 2 * real (size B) - 1" using sB by simp
    have rab: "real (2 * size (A + B) - 1) = 2 * real (size A) + 2 * real (size B) - 1"
      using sA by simp
    have "\<bar>y - ((\<Sum>x\<in>#A. fval x) + (\<Sum>x\<in>#B. fval x))\<bar>
        \<le> \<bar>y - (fa + fb)\<bar> + \<bar>fa - (\<Sum>x\<in>#A. fval x)\<bar> + \<bar>fb - (\<Sum>x\<in>#B. fval x)\<bar>"
      by linarith
    also have "\<dots> \<le> d + (2 * real (size A) - 1) * d + (2 * real (size B) - 1) * d"
      using y(2) fa(3) fb(3) by (simp only: ra rb)
    also have "\<dots> = real (2 * size (A + B) - 1) * d"
      by (simp only: rab) (simp add: algebra_simps)
    finally have "\<bar>y - (\<Sum>x\<in>#A + B. fval x)\<bar> \<le> real (2 * size (A + B) - 1) * d" by simp
    with y(1) dy fa(1) fb(1) show ?thesis by simp
  qed
  then show ?case by (simp only: d_def)
qed

lemma sum_list_err:
  "list_all2 (\<lambda>c e. \<bar>fval c - e\<bar> \<le> d) cs es \<Longrightarrow>
   \<bar>sum_list (map fval cs) - sum_list es\<bar> \<le> of_nat (length cs) * d"
proof (induction rule: list_all2_induct)
  case Nil
  then show ?case by simp
next
  case (Cons c cs e es)
  have "\<bar>fval c + sum_list (map fval cs) - (e + sum_list es)\<bar>
      \<le> \<bar>fval c - e\<bar> + \<bar>sum_list (map fval cs) - sum_list es\<bar>" by linarith
  with Cons show ?case by (simp add: distrib_right)
qed

lemma np_sum_err:
  assumes "list_all2 (\<lambda>c e. \<exists>r. c = Fin r \<and> double r \<and> \<bar>r\<bar> \<le> 2 powr of_int t \<and> \<bar>r - e\<bar> \<le> d) cs es"
    and "length cs \<le> 2 ^ J" "J \<le> 52" "- 1022 \<le> t" "t + int J \<le> 971"
  shows "\<exists>f. np_sum cs = Fin f \<and> double f \<and>
           \<bar>f - sum_list es\<bar> \<le> of_nat (length cs) * (2 * 2 powr of_int (t + int J - 53) + d)"
proof -
  define u :: real where "u = 2 powr of_int (t + int J - 53)"
  have u: "0 \<le> u" by (simp add: u_def)
  have el: "\<forall>x\<in>#mset cs. \<exists>r. x = Fin r \<and> double r \<and> \<bar>r\<bar> \<le> 2 powr of_int t"
  proof
    fix x
    assume "x \<in># mset cs"
    then obtain i where i: "i < length cs" "cs ! i = x" by (auto simp: in_set_conv_nth)
    from list_all2_nthD [OF assms(1) i(1)] i(2)
    show "\<exists>r. x = Fin r \<and> double r \<and> \<bar>r\<bar> \<le> 2 powr of_int t" by blast
  qed
  have "sum_of (mset cs) (np_sum cs)" by (rule np_sum_of)
  from sum_of_err [OF this el _ assms(3,4,5)] assms(2)
  obtain f where f: "np_sum cs = Fin f" "double f"
    "\<bar>f - (\<Sum>x\<in>#mset cs. fval x)\<bar> \<le> of_nat (2 * size (mset cs) - 1) * u"
    unfolding u_def by auto
  have "real (2 * length cs - 1) \<le> 2 * real (length cs)" by simp
  then have "real (2 * length cs - 1) * u \<le> 2 * real (length cs) * u"
    using u by (intro mult_right_mono)
  with f(3) have 1: "\<bar>f - sum_list (map fval cs)\<bar> \<le> 2 * real (length cs) * u"
    by (simp add: sum_mset_sum_list [symmetric])
  have "list_all2 (\<lambda>c e. \<bar>fval c - e\<bar> \<le> d) cs es"
    using assms(1) by (rule list_all2_mono) auto
  then have 2: "\<bar>sum_list (map fval cs) - sum_list es\<bar> \<le> of_nat (length cs) * d"
    by (rule sum_list_err)
  have "\<bar>f - sum_list es\<bar> \<le> \<bar>f - sum_list (map fval cs)\<bar> + \<bar>sum_list (map fval cs) - sum_list es\<bar>"
    by linarith
  with 1 2 have "\<bar>f - sum_list es\<bar> \<le> of_nat (length cs) * (2 * u + d)"
    by (simp add: algebra_simps)
  with f(1,2) show ?thesis by (simp add: u_def)
qed

subsection \<open>The error of the log-likelihood\<close>

lemma pow2_add: "(2 :: real) powr of_int a * 2 powr of_int b = 2 powr of_int (a + b)"
  by (simp add: powr_add)

lemma pow2_double: "(2 :: real) powr of_int (a + 1) = 2 * 2 powr of_int a"
  using pow2_split [of a "a + 1"] by simp

lemma pow2_mono: "a \<le> b \<Longrightarrow> (2 :: real) powr of_int a \<le> 2 powr of_int b"
  by (intro powr_mono) simp_all

lemma ln_range:
  fixes m :: real
  assumes "double m" "0 < m"
  shows "\<bar>ln m\<bar> \<le> 2 powr of_int 11"
proof -
  from assms have lo: "2 powr (- 1074) \<le> m" by (rule double_pos_min)
  from assms have "round_pos m = Fin m" by (simp add: double_pos)
  with assms(2) have "m < big" by (rule pdoubleD)
  then have "ln m \<le> ln (2 powr 1024)" using assms(2) by (simp add: big_def del: powr_numeral)
  also have "\<dots> = 1024 * ln 2" by (simp only: ln_powr)
  also have "\<dots> \<le> 1024 * 1" using ln_2_less_1 by (intro mult_left_mono) simp_all
  finally have up: "ln m \<le> 1024" by simp
  have "ln (2 powr (- 1074)) \<le> ln m" using lo by (intro ln_mono) simp_all
  moreover have "ln (2 powr (- 1074)) = - 1074 * ln (2 :: real)" by (simp only: ln_powr)
  moreover have "1074 * ln (2 :: real) \<le> 1074 * 1" using ln_2_less_1 by (intro mult_left_mono) simp_all
  ultimately have "- 1074 \<le> ln m" by simp
  with up show ?thesis by simp
qed

lemma cval_err:
  assumes "double m" "0 \<le> m" "m \<le> 2 powr of_int k" "\<bar>x\<bar> \<le> 2 powr of_int k" "0 \<le> k" "k \<le> 1000"
  shows "\<exists>t. cval (Fin m) (Fin x) = Fin t \<and> double t \<and> \<bar>t\<bar> \<le> 2 powr of_int (k + 12) \<and>
             \<bar>t - (if 0 < m then x * ln m - m else 0)\<bar> \<le> 2 powr of_int (k - 40)"
proof (cases "m = 0")
  case True
  then show ?thesis by (simp add: cval_def double_zero)
next
  case False
  with assms(2) have m: "0 < m" by simp
  define u :: real where "u = 2 powr of_int (k - 42)"
  have u1: "2 powr of_int (k - 41) = 2 * u" using pow2_double [of "k - 42"] by (simp add: u_def)
  have u2: "2 powr of_int (k - 40) = 4 * u" using pow2_double [of "k - 41"] u1 by simp
  have "\<bar>ln m\<bar> \<le> 2 powr of_int 11" using assms(1) m by (rule ln_range)
  from round64_err [OF this] obtain l where
    l: "round64 (ln m) = Fin l" "\<bar>l - ln m\<bar> \<le> 2 powr of_int (- 42)" "\<bar>l\<bar> \<le> 2 powr of_int 11"
    by auto
  have "\<bar>x * l\<bar> \<le> 2 powr of_int k * 2 powr of_int 11"
    unfolding abs_mult using assms(4) l(3) by (intro mult_mono) simp_all
  then have "\<bar>x * l\<bar> \<le> 2 powr of_int (k + 11)" by (simp only: pow2_add)
  from round64_err [OF this] assms(5,6) obtain p where
    p: "round64 (x * l) = Fin p" "\<bar>p - x * l\<bar> \<le> 2 powr of_int (k + 11 - 53)"
      "\<bar>p\<bar> \<le> 2 powr of_int (k + 11)"
    by auto
  have "k + 11 - 53 = k - 42" by simp
  with p(2) have pe: "\<bar>p - x * l\<bar> \<le> u" by (simp only: u_def)
  have "\<bar>x * l - x * ln m\<bar> = \<bar>x\<bar> * \<bar>l - ln m\<bar>"
    by (simp add: right_diff_distrib [symmetric] abs_mult)
  also have "\<dots> \<le> 2 powr of_int k * 2 powr of_int (- 42)"
    using assms(4) l(2) by (intro mult_mono) simp_all
  also have "\<dots> = 2 powr of_int (k + - 42)" by (simp only: pow2_add)
  finally have le: "\<bar>x * l - x * ln m\<bar> \<le> u" by (simp add: u_def)
  have "(2 :: real) powr of_int k \<le> 2 powr of_int (k + 11)" by (rule pow2_mono) simp
  with assms(2,3) have "\<bar>m\<bar> \<le> 2 powr of_int (k + 11)" by linarith
  with p(3) have "\<bar>p + - m\<bar> \<le> 2 * 2 powr of_int (k + 11)" by linarith
  moreover have "(2 :: real) powr of_int (k + 12) = 2 powr of_int (k + 11) * 2"
    using pow2_split [of "k + 11" "k + 12"] by simp
  ultimately have "\<bar>p + - m\<bar> \<le> 2 powr of_int (k + 12)" by linarith
  from round64_err [OF this] assms(5,6) obtain t where
    t: "round64 (p + - m) = Fin t" "\<bar>t - (p + - m)\<bar> \<le> 2 powr of_int (k + 12 - 53)"
      "\<bar>t\<bar> \<le> 2 powr of_int (k + 12)"
    by auto
  have "k + 12 - 53 = k - 41" by simp
  with t(2) have te: "\<bar>t - (p + - m)\<bar> \<le> 2 * u" by (simp only: u1)
  have "\<bar>t - (x * ln m - m)\<bar> \<le> \<bar>t - (p + - m)\<bar> + \<bar>p - x * l\<bar> + \<bar>x * l - x * ln m\<bar>"
    by linarith
  with te pe le have "\<bar>t - (x * ln m - m)\<bar> \<le> 4 * u" by linarith
  then have "\<bar>t - (x * ln m - m)\<bar> \<le> 2 powr of_int (k - 40)" by (simp only: u2)
  moreover from t(1) have "double t" by (rule round64_is_double)
  moreover have "cval (Fin m) (Fin x) = Fin t"
    using m l(1) p(1) t(1) by (simp add: cval_def fsub_def)
  ultimately show ?thesis using t(3) m by simp
qed

lemma map2_cval_err:
  "length ms = length xs \<Longrightarrow>
   \<forall>m\<in>set ms. double m \<and> 0 \<le> m \<and> m \<le> 2 powr of_int k \<Longrightarrow>
   \<forall>x\<in>set xs. \<bar>x\<bar> \<le> 2 powr of_int k \<Longrightarrow> 0 \<le> k \<Longrightarrow> k \<le> 1000 \<Longrightarrow>
   list_all2 (\<lambda>c e. \<exists>r. c = Fin r \<and> double r \<and> \<bar>r\<bar> \<le> 2 powr of_int (k + 12) \<and>
                       \<bar>r - e\<bar> \<le> 2 powr of_int (k - 40))
     (map2 cval (map Fin ms) (map Fin xs))
     (map2 (\<lambda>m x. if 0 < m then x * ln m - m else 0) ms xs)"
proof (induction ms xs rule: list_induct2)
  case Nil
  then show ?case by simp
next
  case (Cons m ms x xs)
  then have "\<exists>t. cval (Fin m) (Fin x) = Fin t \<and> double t \<and> \<bar>t\<bar> \<le> 2 powr of_int (k + 12) \<and>
             \<bar>t - (if 0 < m then x * ln m - m else 0)\<bar> \<le> 2 powr of_int (k - 40)"
    by (intro cval_err) simp_all
  with Cons show ?case by simp
qed

lemma np_sum_mag:
  assumes "\<forall>c\<in>set cs. bnd (2 powr of_int t) c" "length cs \<le> 2 ^ J" "J \<le> 52"
    "- 1074 \<le> t" "t \<le> 971"
  shows "bnd (2 powr of_int (t + int J)) (np_sum cs)"
proof -
  have "(2 :: nat) ^ J \<le> 2 ^ 52" using assms(3) by (intro power_increasing) simp_all
  with assms(2) have lt: "size (mset cs) < 2 ^ 53" by simp
  have "sum_of (mset cs) (np_sum cs)" by (rule np_sum_of)
  moreover have "\<forall>c\<in>#mset cs. bnd (2 powr of_int t) c" using assms(1) by simp
  ultimately have "bnd (of_nat (size (mset cs)) * 2 powr of_int t) (np_sum cs)"
    using lt assms(4,5) by (rule sum_of_bnd)
  then obtain r where r: "np_sum cs = Fin r" "\<bar>r\<bar> \<le> of_nat (length cs) * 2 powr of_int t"
    by (rule bndE) simp
  have "real (length cs) \<le> real (2 ^ J)" using assms(2) by (simp only: of_nat_le_iff)
  then have "real (length cs) * 2 powr of_int t \<le> real (2 ^ J) * 2 powr of_int t"
    by (intro mult_right_mono) simp_all
  also have "\<dots> = 2 powr of_int (t + int J)"
    using pow2_split [of t "t + int J"] by (simp add: mult.commute)
  finally have "\<bar>r\<bar> \<le> 2 powr of_int (t + int J)" using r(2) by linarith
  with r(1) show ?thesis by (simp add: bnd_Fin)
qed

lemma loglikelihood_arrays_err:
  assumes "length ms = length xs" "length ms \<le> 2 ^ J" "J \<le> 52" "0 \<le> k" "k + int J \<le> 959"
    and "\<forall>m\<in>set ms. double m \<and> 0 \<le> m \<and> m \<le> 2 powr of_int k"
    and "\<forall>x\<in>set xs. \<bar>x\<bar> \<le> 2 powr of_int k"
  shows "\<exists>r. loglikelihood_arrays (map Fin ms) (map Fin xs) = Inr (Fin r) \<and>
             \<bar>r\<bar> \<le> 2 powr of_int (k + int J + 12) \<and>
             \<bar>r - spec_logLikelihood ms xs\<bar> \<le> 2 powr of_int (k + 2 * int J - 39)"
proof -
  define cs where "cs = map2 cval (map Fin ms) (map Fin xs)"
  define es where "es = map2 (\<lambda>m x. if 0 < m then x * ln m - m else 0) ms xs"
  define w :: real where "w = 2 powr of_int (k + int J - 40)"
  have k: "k \<le> 1000" using assms(5) by simp
  have n: "length cs = length ms" using assms(1) by (simp add: cs_def)
  have rel: "list_all2 (\<lambda>c e. \<exists>r. c = Fin r \<and> double r \<and> \<bar>r\<bar> \<le> 2 powr of_int (k + 12) \<and>
                       \<bar>r - e\<bar> \<le> 2 powr of_int (k - 40)) cs es"
    unfolding cs_def es_def using assms(1,6,7,4) k by (rule map2_cval_err)
  have "length cs \<le> 2 ^ J" using n assms(2) by simp
  moreover have "- 1022 \<le> k + 12" "k + 12 + int J \<le> 971" using assms(4,5) by simp_all
  ultimately obtain f where f: "np_sum cs = Fin f"
    "\<bar>f - sum_list es\<bar> \<le> of_nat (length cs) * (2 * 2 powr of_int (k + 12 + int J - 53) + 2 powr of_int (k - 40))"
    using np_sum_err [OF rel _ assms(3)] by blast
  have "k + 12 + int J - 53 = k + int J - 41" by simp
  moreover have "2 * 2 powr of_int (k + int J - 41) = w"
    using pow2_double [of "k + int J - 41"] by (simp add: w_def)
  ultimately have a: "2 * 2 powr of_int (k + 12 + int J - 53) = w" by simp
  have b: "2 powr of_int (k - 40) \<le> w" unfolding w_def by (rule pow2_mono) simp
  have "real (length cs) \<le> real (2 ^ J)" using n assms(2) by (simp only: of_nat_le_iff)
  moreover have "0 \<le> w" by (simp add: w_def)
  ultimately have "real (length cs) * (w + 2 powr of_int (k - 40)) \<le> real (2 ^ J) * (w + w)"
    using b by (intro mult_mono) simp_all
  also have "real (2 ^ J) * (w + w) = real (2 ^ J) * 2 powr of_int (k + int J - 39)"
    using pow2_double [of "k + int J - 40"] by (simp add: w_def)
  also have "\<dots> = 2 powr of_int (k + int J - 39 + int J)"
    using pow2_split [of "k + int J - 39" "k + int J - 39 + int J"] by (simp add: mult.commute)
  finally have "real (length cs) * (w + 2 powr of_int (k - 40))
      \<le> 2 powr of_int (k + int J - 39 + int J)" .
  moreover have "k + int J - 39 + int J = k + 2 * int J - 39" by simp
  ultimately have "real (length cs) * (w + 2 powr of_int (k - 40))
      \<le> 2 powr of_int (k + 2 * int J - 39)" by (simp only:)
  with f(2) have err: "\<bar>f - sum_list es\<bar> \<le> 2 powr of_int (k + 2 * int J - 39)"
    by (simp only: a)
  have "\<forall>c\<in>set cs. bnd (2 powr of_int (k + 12)) c"
  proof
    fix c
    assume "c \<in> set cs"
    then obtain i where i: "i < length cs" "cs ! i = c" by (auto simp: in_set_conv_nth)
    from list_all2_nthD [OF rel i(1)] i(2)
    obtain r where "c = Fin r" "\<bar>r\<bar> \<le> 2 powr of_int (k + 12)" by blast
    then show "bnd (2 powr of_int (k + 12)) c" by (simp add: bnd_Fin)
  qed
  moreover have "length cs \<le> 2 ^ J" using n assms(2) by simp
  moreover have "- 1074 \<le> k + 12" "k + 12 \<le> 971" using assms(4,5) by simp_all
  ultimately have "bnd (2 powr of_int (k + 12 + int J)) (np_sum cs)"
    using assms(3) by (intro np_sum_mag)
  moreover have "k + 12 + int J = k + int J + 12" by simp
  ultimately have "bnd (2 powr of_int (k + int J + 12)) (Fin f)" by (simp only: f(1))
  then have mag: "\<bar>f\<bar> \<le> 2 powr of_int (k + int J + 12)" by (simp only: bnd_Fin)
  have "spec_logLikelihood ms xs = sum_list es" by (simp add: spec_logLikelihood_def es_def)
  with err mag f(1) assms(1) show ?thesis
    by (simp add: loglikelihood_arrays_eq cs_def [symmetric])
qed

subsection \<open>An inequality of the Poisson likelihood\<close>




lemma pow2_nat: "(2 :: real) powr of_int (int K) = 2 ^ K"
  by (simp add: powr_realpow)



subsection \<open>Evaluations at the observed counts\<close>









subsection \<open>Sums that stay finite\<close>

lemma map2_cval_bnd:
  "length ms = length xs \<Longrightarrow>
   \<forall>m\<in>set ms. \<exists>r. m = Fin r \<and> double r \<and> 0 \<le> r \<and> r \<le> 2 powr of_int k \<Longrightarrow>
   \<forall>x\<in>set xs. \<exists>r. x = Fin r \<and> \<bar>r\<bar> \<le> 2 powr of_int k \<Longrightarrow> 0 \<le> k \<Longrightarrow> k \<le> 1000 \<Longrightarrow>
   \<forall>c\<in>set (map2 cval ms xs). bnd (2 powr of_int (k + 12)) c"
proof (induction ms xs rule: list_induct2)
  case Nil
  then show ?case by simp
next
  case (Cons m ms x xs)
  from Cons.prems(1) obtain r where r: "m = Fin r" "double r" "0 \<le> r" "r \<le> 2 powr of_int k"
    by auto
  from Cons.prems(2) obtain s where s: "x = Fin s" "\<bar>s\<bar> \<le> 2 powr of_int k" by auto
  from r(2,3,4) s(2) Cons.prems(3,4)
  obtain t where "cval (Fin r) (Fin s) = Fin t" "\<bar>t\<bar> \<le> 2 powr of_int (k + 12)"
    using cval_err by blast
  then have "bnd (2 powr of_int (k + 12)) (cval (Fin r) (Fin s))" by (simp add: bnd_Fin)
  moreover from Cons have "\<forall>c\<in>set (map2 cval ms xs). bnd (2 powr of_int (k + 12)) c" by simp
  ultimately show ?case using r(1) s(1) by simp
qed

lemma np_sum_finite:
  assumes "\<forall>c\<in>set cs. bnd (2 powr of_int t) c" "length cs < 2 ^ 53" "- 1074 \<le> t" "t \<le> 971"
  shows "\<exists>r. np_sum cs = Fin r"
proof -
  have "sum_of (mset cs) (np_sum cs)" by (rule np_sum_of)
  moreover have "\<forall>c\<in>#mset cs. bnd (2 powr of_int t) c" using assms(1) by simp
  moreover have "size (mset cs) < 2 ^ 53" using assms(2) by simp
  ultimately have "bnd (of_nat (size (mset cs)) * 2 powr of_int t) (np_sum cs)"
    using assms(3,4) by (rule sum_of_bnd)
  then show ?thesis by (rule bndE) blast
qed

section \<open>The claims\<close>

subsection \<open>The objective and the Cash statistic\<close>

text \<open>
  Claim C1. The claim reads: the objective \<^verbatim>\<open>cash\<close> equals -2 times the Poisson
  log-likelihood of the same predicted and observed counts. The notebook defines the Cash
  statistic as \<open>C = -2 ln L\<close>, but the method returns \<^verbatim>\<open>-result/2.0\<close>. On the one-bin
  spectrum with one observed count and the parameters \<open>[0, 2]\<close> the flat library predicts
  one count, the log-likelihood is \<open>1 * ln 1 - 1 = -1\<close>, and \<^verbatim>\<open>cash\<close> returns
  \<open>1/2\<close>, whereas \<open>-2\<close> times the log-likelihood is \<open>2\<close>. Every value here is a
  float64 value and no operation rounds.
\<close>

theorem cash_half_of_minus_loglikelihood:
  "fst (loglikelihood flat_library one_bin_fit [Fin 0, Fin 2]) = Inr (Fin (- 1)) \<and>
   fst (cash flat_library one_bin_fit [Fin 0, Fin 2]) = Inr (Fin (1 / 2)) \<and>
   fmul (Fin (- 2)) (Fin (- 1)) = Fin 2"
  by (simp add: cash_flat_one loglikelihood_flat_one cash_arrays_def loglikelihood_arrays_eq
      np_sum_short cval_def fsub_def round_small)

subsection \<open>Residuals of the fit\<close>

text \<open>
  Claim C2, as stated: for observed counts \<open>[0, 4, 9]\<close> and predicted counts \<open>[1, 4, 6]\<close>
  the residuals are \<open>[1.0, 0.0, -1.0]\<close>, the errors being floored at 1. The code takes
  \<^verbatim>\<open>np.sqrt(self.counts)\<close> without a floor and leaves the residual of a bin with zero
  error at 0.0, so the first residual is 0.0 and not 1.0.
\<close>

theorem mod_residuals_zero_count_counterexample:
  "mod_residuals_arrays [Fin 1, Fin 4, Fin 6] [Fin 0, Fin 4, Fin 9] = Inr [Fin 0, Fin 0, Fin (- 1)] \<and>
   mod_residuals_arrays [Fin 1, Fin 4, Fin 6] [Fin 0, Fin 4, Fin 9] \<noteq> Inr [Fin 1, Fin 0, Fin (- 1)]"
  by (simp add: mod_residuals_arrays_eq resid_def fsub_def sqrt_nine round_small)

text \<open>
  Claim C2, amended: for finite predicted counts and finite non-negative observed counts
  of the same length, the residual of a bin is the float64 value of
  \<open>(predicted - observed) / sqrt observed\<close> where the observed count is not zero, and 0
  where it is zero; the errors are the square roots of the counts, not floored, and no bin
  divides by zero (the square root of a positive float64 value does not round to zero).
  For observed \<open>[0, 4, 9]\<close> and predicted \<open>[1, 4, 6]\<close> the residuals are
  \<open>[0.0, 0.0, -1.0]\<close>.
\<close>

theorem mod_residuals_arrays_unfloored:
  "length ms = length cs \<Longrightarrow> \<forall>c\<in>set cs. double c \<and> 0 \<le> c \<Longrightarrow>
   mod_residuals_arrays (map Fin ms) (map Fin cs) =
     Inr (map (\<lambda>(m, c). if c = 0 then Fin 0 else fdiv (fsub (Fin m) (Fin c)) (fsqrt (Fin c)))
            (zip ms cs))"
  by (induction ms cs rule: list_induct2) (simp_all add: mod_residuals_arrays_eq resid_Fin)

theorem mod_residuals_arrays_unfloored_witness:
  "mod_residuals_arrays (map Fin [1, 4, 6]) (map Fin [0, 4, 9]) = Inr [Fin 0, Fin 0, Fin (- 1)]"
  using mod_residuals_arrays_unfloored [of "[1, 4, 6]" "[0, 4, 9]"]
  by (simp add: sqrt_nine round_small small_doubles double_zero double_nine fsub_def)

subsection \<open>Finiteness of the objective\<close>

text \<open>
  Claim C3, as stated: for every parameter vector the objective returns a finite value.
  It fails where the accumulated sum is not finite: with the amplitude parameter nan the
  predicted count is nan, \<^verbatim>\<open>loglikelihood\<close> returns \<open>-inf\<close> and \<^verbatim>\<open>cash\<close> returns
  \<open>+inf\<close>.
\<close>

theorem cash_not_finite_counterexample:
  "fst (cash flat_library one_bin_fit [NaN, Fin 2]) = Inr PInf \<and> \<not> isfinite PInf"
  by (simp add: cash_flat_one cash_arrays_def loglikelihood_arrays_eq
      np_sum_short cval_def fsub_def)

text \<open>
  Claim C3, amended: whenever the objective returns a value (rather than raising), the
  value is finite or \<open>+inf\<close>; it is never nan and never \<open>-inf\<close>. A sum that is not
  finite is replaced by \<open>-inf\<close> in \<^verbatim>\<open>loglikelihood\<close>, which \<^verbatim>\<open>cash\<close> hands to the
  minimizer as \<open>+inf\<close>.
\<close>

theorem cash_finite_or_PInf:
  "fst (cash L self pars) = Inr v \<Longrightarrow> isfinite v \<or> v = PInf"
  by (auto simp: cash_def loglikelihood_def split: prod.splits sum.splits
      dest!: loglikelihood_arrays_range half_neg_range)

theorem cash_finite_or_PInf_witness:
  "fst (cash flat_library one_bin_fit [Fin 0, Fin 2]) = Inr (Fin (1 / 2)) \<and>
   (isfinite (Fin (1 / 2)) \<or> Fin (1 / 2) = PInf)"
proof -
  have h: "fst (cash flat_library one_bin_fit [Fin 0, Fin 2]) = Inr (Fin (1 / 2))"
    by (simp add: cash_flat_one cash_arrays_def loglikelihood_arrays_eq
        np_sum_short cval_def fsub_def round_small)
  from cash_finite_or_PInf [OF h] h show ?thesis by simp
qed

subsection \<open>The log-likelihood as a sum\<close>

text \<open>
  Claim C4, as stated: for every pair of predicted and observed vectors of equal length
  the log-likelihood is the sum of \<open>x * ln m - m\<close> over the bins with \<open>m > 0\<close>. The mask
  of the code is \<^verbatim>\<open>ymodel != 0.0\<close>, so a negative bin is not left out: for the predicted
  count \<open>-1\<close> and the observed count \<open>1\<close> the sum of the specification is 0, and the
  code returns \<open>-inf\<close>.
\<close>

theorem loglikelihood_sum_counterexample:
  "loglikelihood_arrays [Fin (- 1)] [Fin 1] = Inr NInf \<and>
   spec_logLikelihood [- 1] [1] = 0 \<and>
   loglikelihood_arrays [Fin (- 1)] [Fin 1] \<noteq> Inr (Fin (spec_logLikelihood [- 1] [1]))"
  by (simp add: loglikelihood_arrays_eq np_sum_short cval_def fsub_def spec_logLikelihood_def)

text \<open>
  Claim C4, amended: for every pair of predicted and observed vectors of equal length the
  log-likelihood is the float64 sum, as \<^verbatim>\<open>np.sum\<close> accumulates it, of one term per bin:
  the float64 value of \<open>x * ln m - m\<close> for the bins with \<open>m > 0\<close>, 0 for every bin with
  \<open>m = 0\<close> (not \<open>-inf\<close>), and nan for a bin whose predicted count is negative or nan;
  the sum is returned when it is finite, and \<open>-inf\<close> otherwise. For predicted counts that
  are float64 values between 0 and \<open>2 ^ K\<close> and observed counts of magnitude at most
  \<open>2 ^ K\<close>, in at most \<open>2 ^ J\<close> bins with \<open>J \<le> 52\<close> and \<open>K + J \<le> 959\<close>, the
  log-likelihood is finite and differs from the real sum of \<open>x * ln m - m\<close> over the bins
  with \<open>m > 0\<close> by at most \<open>2 powr (K + 2 * J - 39)\<close>.
\<close>

theorem loglikelihood_arrays_sum:
  "(length ymodel = length ydata \<longrightarrow>
      loglikelihood_arrays ymodel ydata =
        Inr (if isfinite (np_sum (map2 bin_term ymodel ydata))
             then np_sum (map2 bin_term ymodel ydata) else NInf)) \<and>
   (length ms = length xs \<and> length ms \<le> 2 ^ J \<and> J \<le> 52 \<and> K + J \<le> 959 \<and>
    (\<forall>m\<in>set ms. double m \<and> 0 \<le> m \<and> m \<le> 2 ^ K) \<and> (\<forall>x\<in>set xs. \<bar>x\<bar> \<le> 2 ^ K) \<longrightarrow>
      (\<exists>r. loglikelihood_arrays (map Fin ms) (map Fin xs) = Inr (Fin r) \<and>
           \<bar>r - spec_logLikelihood ms xs\<bar> \<le> 2 powr (real K + 2 * real J - 39)))"
proof (intro conjI impI)
  assume "length ymodel = length ydata"
  moreover have "cval = bin_term" by (intro ext) (rule cval_bin_term)
  ultimately show "loglikelihood_arrays ymodel ydata =
        Inr (if isfinite (np_sum (map2 bin_term ymodel ydata))
             then np_sum (map2 bin_term ymodel ydata) else NInf)"
    by (simp add: loglikelihood_arrays_eq)
next
  assume h: "length ms = length xs \<and> length ms \<le> 2 ^ J \<and> J \<le> 52 \<and> K + J \<le> 959 \<and>
    (\<forall>m\<in>set ms. double m \<and> 0 \<le> m \<and> m \<le> 2 ^ K) \<and> (\<forall>x\<in>set xs. \<bar>x\<bar> \<le> 2 ^ K)"
  then have "length ms = length xs" "length ms \<le> 2 ^ J" "J \<le> 52" "0 \<le> int K"
    "int K + int J \<le> 959"
    "\<forall>m\<in>set ms. double m \<and> 0 \<le> m \<and> m \<le> 2 powr of_int (int K)"
    "\<forall>x\<in>set xs. \<bar>x\<bar> \<le> 2 powr of_int (int K)"
    by (simp_all only: pow2_nat) simp_all
  from loglikelihood_arrays_err [OF this] obtain r where
    "loglikelihood_arrays (map Fin ms) (map Fin xs) = Inr (Fin r)"
    "\<bar>r - spec_logLikelihood ms xs\<bar> \<le> 2 powr of_int (int K + 2 * int J - 39)" by blast
  moreover have "(of_int (int K + 2 * int J - 39) :: real) = real K + 2 * real J - 39" by simp
  ultimately show "\<exists>r. loglikelihood_arrays (map Fin ms) (map Fin xs) = Inr (Fin r) \<and>
           \<bar>r - spec_logLikelihood ms xs\<bar> \<le> 2 powr (real K + 2 * real J - 39)"
    by (simp only:) blast
qed

theorem loglikelihood_arrays_sum_witness:
  "loglikelihood_arrays [Fin 0, Fin 1] [Fin 3, Fin 2] = Inr (Fin (- 1)) \<and>
   (\<exists>r. loglikelihood_arrays [Fin 0, Fin 1] [Fin 3, Fin 2] = Inr (Fin r) \<and>
        \<bar>r - spec_logLikelihood [0, 1] [3, 2]\<bar> \<le> 2 powr (- 35))"
  using loglikelihood_arrays_sum [of "[Fin 0, Fin 1]" "[Fin 3, Fin 2]" "[0, 1]" "[3, 2]" 1 2]
  by (simp add: bin_term_def np_sum_short fsub_def round_small small_doubles double_zero
      spec_logLikelihood_def)

subsection \<open>Values that are not finite\<close>

text \<open>
  Claim C5, as stated: the log-likelihood is \<open>-inf\<close> whenever a predicted count is nan,
  and finite whenever all predicted counts are \<open>>= 0\<close> and one of them is positive, the
  observed counts being finite and non-negative. The second half fails where a term of
  the sum overflows: for the predicted count \<open>16\<close> and the observed count
  \<open>2 powr 1023\<close>, both float64 values, the product \<open>x * ln m\<close> exceeds the float64 range,
  the sum is \<open>+inf\<close> and the code returns \<open>-inf\<close>. It fails as well for the predicted
  count \<open>+inf\<close>, which is \<open>>= 0\<close> and positive: \<open>1 * ln inf - inf\<close> is nan.
\<close>

theorem loglikelihood_overflow_counterexample:
  "ge_zero (Fin 16) \<and> gt_zero (Fin 16) \<and> double 16 \<and> double (2 powr 1023) \<and>
   loglikelihood_arrays [Fin 16] [Fin (2 powr 1023)] = Inr NInf \<and> \<not> isfinite NInf \<and>
   ge_zero PInf \<and> gt_zero PInf \<and> loglikelihood_arrays [PInf] [Fin 1] = Inr NInf"
proof -
  have 1: "double 16" using double_of_int [of 16] by simp
  have 2: "double (2 powr of_int 1023)" by (rule double_pow2) simp_all
  have 3: "loglikelihood_arrays [PInf] [Fin 1] = Inr NInf"
    by (simp add: loglikelihood_arrays_eq np_sum_short cval_def fsub_def inf_times_def)
  have e: "of_int 1023 = (1023 :: real)" by simp
  from 1 2 3 loglikelihood_overflow show ?thesis unfolding e by simp
qed

text \<open>
  Claim C5, amended: for predicted and observed vectors of the same length, the
  log-likelihood is \<open>-inf\<close> whenever a predicted count is nan. It is finite whenever all
  predicted counts are float64 values between 0 and \<open>2 ^ K\<close> and all observed counts are
  finite of magnitude at most \<open>2 ^ K\<close>, for some \<open>K \<le> 959\<close>, and there are fewer than
  \<open>2 ^ 53\<close> bins (whether or not a predicted count is positive or the observed counts
  are non-negative). In every case a value is returned, and it is finite or \<open>-inf\<close>.
\<close>

theorem loglikelihood_NaN_or_finite:
  assumes "length ymodel = length ydata"
  shows "(NaN \<in> set ymodel \<longrightarrow> loglikelihood_arrays ymodel ydata = Inr NInf) \<and>
         ((\<forall>m\<in>set ymodel. \<exists>r. m = Fin r \<and> double r \<and> 0 \<le> r \<and> r \<le> 2 ^ K) \<and>
          (\<forall>x\<in>set ydata. \<exists>r. x = Fin r \<and> \<bar>r\<bar> \<le> 2 ^ K) \<and>
          K \<le> 959 \<and> length ymodel < 2 ^ 53 \<longrightarrow>
            (\<exists>r. loglikelihood_arrays ymodel ydata = Inr (Fin r))) \<and>
         (\<exists>v. loglikelihood_arrays ymodel ydata = Inr v \<and> (isfinite v \<or> v = NInf))"
proof (intro conjI impI)
  assume "NaN \<in> set ymodel"
  with assms have "NaN \<in> set (map2 cval ymodel ydata)" by (rule map2_cval_NaN)
  with assms show "loglikelihood_arrays ymodel ydata = Inr NInf"
    by (simp add: loglikelihood_arrays_eq np_sum_NaN)
next
  assume h: "(\<forall>m\<in>set ymodel. \<exists>r. m = Fin r \<and> double r \<and> 0 \<le> r \<and> r \<le> 2 ^ K) \<and>
          (\<forall>x\<in>set ydata. \<exists>r. x = Fin r \<and> \<bar>r\<bar> \<le> 2 ^ K) \<and>
          K \<le> 959 \<and> length ymodel < 2 ^ 53"
  then have m: "\<forall>m\<in>set ymodel. \<exists>r. m = Fin r \<and> double r \<and> 0 \<le> r \<and> r \<le> 2 powr of_int (int K)"
    and x: "\<forall>x\<in>set ydata. \<exists>r. x = Fin r \<and> \<bar>r\<bar> \<le> 2 powr of_int (int K)"
    unfolding pow2_nat by blast+
  from h have K: "0 \<le> int K" "int K \<le> 1000" by simp_all
  from assms m x K have "\<forall>c\<in>set (map2 cval ymodel ydata). bnd (2 powr of_int (int K + 12)) c"
    by (rule map2_cval_bnd)
  moreover have "length (map2 cval ymodel ydata) < 2 ^ 53" using h assms by simp
  moreover have "- 1074 \<le> int K + 12" "int K + 12 \<le> 971" using h by simp_all
  ultimately obtain r where "np_sum (map2 cval ymodel ydata) = Fin r"
    using np_sum_finite by blast
  with assms show "\<exists>r. loglikelihood_arrays ymodel ydata = Inr (Fin r)"
    by (simp add: loglikelihood_arrays_eq)
next
  from assms show "\<exists>v. loglikelihood_arrays ymodel ydata = Inr v \<and> (isfinite v \<or> v = NInf)"
    by (simp add: loglikelihood_arrays_eq)
qed

theorem loglikelihood_NaN_or_finite_witness:
  "loglikelihood_arrays [NaN, Fin 1] [Fin 1, Fin 1] = Inr NInf \<and>
   (\<exists>r. loglikelihood_arrays [Fin 0, Fin 1] [Fin 3, Fin 2] = Inr (Fin r))"
  using loglikelihood_NaN_or_finite [of "[NaN, Fin 1]" "[Fin 1, Fin 1]" 0]
    loglikelihood_NaN_or_finite [of "[Fin 0, Fin 1]" "[Fin 3, Fin 2]" 2]
  by (simp add: small_doubles double_zero)

subsection \<open>The statistic at the observed counts\<close>




subsection \<open>Evaluations do not depend on earlier ones\<close>



subsection \<open>Bin midpoints\<close>

text \<open>
  Claim C8, as stated: for bin edges with \<open>low < high\<close> in every bin, each midpoint lies
  strictly between the two edges of its bin. In float64 the midpoint of two neighbouring
  values is not strictly between them: for the edges \<open>1\<close> and \<open>1 + 2 powr - 52\<close> the sum
  \<open>2 + 2 powr - 52\<close> is a tie that rounds to \<open>2\<close>, and the midpoint is \<open>1\<close>, the low
  edge. And the sum of two large edges overflows: for the edges \<open>2 powr 1023\<close> and
  \<open>1.5 * 2 powr 1023\<close> the midpoint is \<open>+inf\<close>.
\<close>

theorem emid_edge_counterexample:
  "double 1 \<and> double (1 + 1 / 2 ^ 52) \<and> emid [Fin 1] [Fin (1 + 1 / 2 ^ 52)] = Inr [Fin 1] \<and>
   double (2 powr 1023) \<and> double (3 * 2 powr 1022) \<and> (2 :: real) powr 1023 < 3 * 2 powr 1022 \<and>
   emid [Fin (2 powr 1023)] [Fin (3 * 2 powr 1022)] = Inr [PInf]"
proof -
  have 1: "emid [Fin 1] [Fin (1 + 1 / 2 ^ 52)] = Inr [Fin 1]"
    using round64_tie by (simp add: emid_def np_add_def round_small)
  have 2: "emid [Fin (2 powr of_int 1023)] [Fin (3 * 2 powr of_int 1022)] = Inr [PInf]"
    using round64_sum_overflow by (simp add: emid_def np_add_def inf_times_def del: powr_numeral)
  have 3: "(2 :: real) powr of_int 1023 < 3 * 2 powr of_int 1022"
    using pow2_split [of 1022 1023] by (simp del: powr_numeral)
  have 4: "double (2 powr of_int 1023)" by (rule double_pow2) simp_all
  have e: "of_int 1023 = (1023 :: real)" "of_int 1022 = (1022 :: real)" by simp_all
  from 1 2 3 4 double_high_edge double_next_one small_doubles(1)
  show ?thesis unfolding e by blast
qed

text \<open>
  Claim C8, amended: for bin edges that are float64 values of magnitude below
  \<open>2 powr 1023\<close> with \<open>low < high\<close> in every bin, \<^verbatim>\<open>0.5 * (elo + ehi)\<close> returns one
  midpoint per bin, each the float64 value of \<open>0.5 * (low + high)\<close>, finite and between
  the two edges of its bin, the edges included. The midpoint is strictly above the low
  edge whenever a float64 value lies above the low edge and not above the real midpoint,
  and strictly below the high edge whenever a float64 value lies below the high edge and
  not below the real midpoint: strictness is lost only in bins so narrow that no float64
  value separates the real midpoint from an edge. The expression is a function of the two
  arrays alone; in \<^verbatim>\<open>model_chist\<close> its value is not used.
\<close>

theorem emid_between:
  "length ls = length hs \<Longrightarrow>
   \<forall>(l, h)\<in>set (zip ls hs).
      l < h \<and> double l \<and> double h \<and> \<bar>l\<bar> < 2 powr 1023 \<and> \<bar>h\<bar> < 2 powr 1023 \<Longrightarrow>
   emid (map Fin ls) (map Fin hs) =
     Inr (map (\<lambda>(l, h). fmul (Fin 0.5) (fadd (Fin l) (Fin h))) (zip ls hs)) \<and>
   (\<forall>(l, h)\<in>set (zip ls hs).
      \<exists>m. fmul (Fin 0.5) (fadd (Fin l) (Fin h)) = Fin m \<and> l \<le> m \<and> m \<le> h \<and>
          (\<forall>d. double d \<and> l < d \<and> 2 * d \<le> l + h \<longrightarrow> l < m) \<and>
          (\<forall>d. double d \<and> d < h \<and> l + h \<le> 2 * d \<longrightarrow> m < h))"
proof (induction ls hs rule: list_induct2)
  case Nil
  then show ?case by (simp add: emid_def np_add_def)
next
  case (Cons l ls h hs)
  from Cons.prems have b: "l < h" "double l" "double h"
    "\<bar>l\<bar> < 2 powr of_int 1023" "\<bar>h\<bar> < 2 powr of_int 1023"
    by (simp_all del: powr_numeral)
  then have "\<exists>m. fmul (Fin 0.5) (fadd (Fin l) (Fin h)) = Fin m \<and> l \<le> m \<and> m \<le> h \<and>
          (\<forall>d. double d \<and> l < d \<and> 2 * d \<le> l + h \<longrightarrow> l < m) \<and>
          (\<forall>d. double d \<and> d < h \<and> l + h \<le> 2 * d \<longrightarrow> m < h)"
    by (intro midpoint_between) simp_all
  moreover from Cons have "emid (map Fin ls) (map Fin hs) =
     Inr (map (\<lambda>(l, h). fmul (Fin 0.5) (fadd (Fin l) (Fin h))) (zip ls hs)) \<and>
   (\<forall>(l, h)\<in>set (zip ls hs).
      \<exists>m. fmul (Fin 0.5) (fadd (Fin l) (Fin h)) = Fin m \<and> l \<le> m \<and> m \<le> h \<and>
          (\<forall>d. double d \<and> l < d \<and> 2 * d \<le> l + h \<longrightarrow> l < m) \<and>
          (\<forall>d. double d \<and> d < h \<and> l + h \<le> 2 * d \<longrightarrow> m < h))"
    by simp
  ultimately show ?case using Cons.hyps by (simp add: emid_def np_add_def)
qed

theorem emid_between_witness:
  "emid (map Fin [1, 2]) (map Fin [2, 4]) = Inr [Fin (3 / 2), Fin 3]"
  using emid_between [of "[1, 2]" "[2, 4]"]
  by (simp add: round_small small_doubles)

subsection \<open>The amplitude of the power law\<close>

text \<open>
  Claim C9, as stated: for a finite \<open>lognorm\<close> the amplitude \<open>10^lognorm\<close> is strictly
  positive, and a zero amplitude cannot be reached. In float64 the power underflows: for
  \<open>lognorm = - 324\<close> the value of \<^verbatim>\<open>np.power(10.0, lognorm)\<close> is \<open>0.0\<close>, which
  \<^verbatim>\<open>set_model_pars\<close> stores and \<^verbatim>\<open>model_chist\<close> leaves in the model.
\<close>

theorem amplitude_underflow_counterexample:
  "set_model_pars one_bin_fit [Fin (- 324), Fin 2] =
     Inr (one_bin_fit\<lparr>model := \<lparr>norm_pl = Fin 0, phoindex = Fin 2\<rparr>\<rparr>) \<and>
   snd (model_chist flat_library one_bin_fit [Fin (- 324), Fin 2]) =
     one_bin_fit\<lparr>model := \<lparr>norm_pl = Fin 0, phoindex = Fin 2\<rparr>\<rparr> \<and>
   \<not> gt_zero (Fin 0)"
  using power10_underflow
  by (simp add: set_model_pars_def Powerlaw_overwrite model_chist_flat_one del: power10.simps)

text \<open>
  Claim C9, amended: for a parameter vector \<open>[lognorm, photon index]\<close> with a finite
  \<open>lognorm\<close>, \<^verbatim>\<open>set_model_pars\<close> stores the amplitude \<^verbatim>\<open>np.power(10.0, lognorm)\<close>,
  which is \<open>+inf\<close> or finite and not negative. It is strictly positive exactly when
  \<open>10 powr lognorm\<close> exceeds \<open>2 powr - 1075\<close>, half the smallest positive float64 value,
  and so whenever \<open>lognorm >= - 323\<close>; \<^verbatim>\<open>model_chist\<close> calls the model with exactly this
  amplitude. A negative amplitude cannot be reached; a zero amplitude is reached by
  underflow only.
\<close>

theorem set_model_pars_norm:
  "set_model_pars self [Fin l, p] =
     Inr (self\<lparr>model := \<lparr>norm_pl = power10 (Fin l), phoindex = p\<rparr>\<rparr>) \<and>
   (power10 (Fin l) = PInf \<or> (\<exists>a. power10 (Fin l) = Fin a \<and> 0 \<le> a)) \<and>
   (gt_zero (power10 (Fin l)) \<longleftrightarrow> 2 powr (- 1075) < 10 powr l) \<and>
   (- 323 \<le> l \<longrightarrow> gt_zero (power10 (Fin l))) \<and>
   model_chist L self [Fin l, p] =
     (case bin_counts L self of
        (elo, ehi, cts, cts_err) \<Rightarrow>
          (case emid elo ehi of
             Inl e \<Rightarrow> (Inl e, self)
           | Inr em \<Rightarrow>
               (Inr (apply_resp L (self\<lparr>model := \<lparr>norm_pl = power10 (Fin l), phoindex = p\<rparr>\<rparr>)
                      (calculate L \<lparr>norm_pl = power10 (Fin l), phoindex = p\<rparr> elo ehi)),
                self\<lparr>model := \<lparr>norm_pl = power10 (Fin l), phoindex = p\<rparr>\<rparr>)))"
  using power10_nonneg [of l] power10_pos [of l] power10_pos_iff [of l]
    model_chist_pars [of L self "Fin l" p]
  by (simp add: set_model_pars_def Powerlaw_overwrite del: power10.simps)

theorem set_model_pars_norm_witness:
  "gt_zero (power10 (Fin 0)) \<and> power10 (Fin 0) = Fin 1"
  using set_model_pars_norm [of one_bin_fit 0 "Fin 2" flat_library]
  by (simp add: round_small)

subsection \<open>Negative predicted counts\<close>

text \<open>
  Claim C10. If a predicted count is finite and strictly negative, the log-likelihood is
  \<open>-inf\<close>, whatever the other bins hold: the mask \<^verbatim>\<open>ymodel != 0.0\<close> keeps the bin, its
  logarithm is nan, nan absorbs in the sum, and the branch for a sum that is not finite
  returns \<open>-inf\<close>.
\<close>

theorem loglikelihood_negative_bin:
  "length ymodel = length ydata \<Longrightarrow> Fin r \<in> set ymodel \<Longrightarrow> r < 0 \<Longrightarrow>
   loglikelihood_arrays ymodel ydata = Inr NInf"
  using map2_cval_neg [of ymodel ydata r]
  by (simp add: loglikelihood_arrays_eq np_sum_NaN)

theorem loglikelihood_negative_bin_witness:
  "loglikelihood_arrays [Fin 2, Fin (- 3)] [Fin 1, Fin 4] = Inr NInf"
  using loglikelihood_negative_bin [of "[Fin 2, Fin (- 3)]" "[Fin 1, Fin 4]" "- 3"] by simp

end
